theory Spec2Isabelle
  imports Complex_Main "HOL-Library.Multiset"
begin

section \<open>JavaScript values used by the scripts\<close>

text \<open>
  Strings are lists of characters. The scripts only inspect ASCII characters (the dot of a
  version, the delimiters of a package URL, digits), so a character of the model is one
  ASCII code unit of the JavaScript string.
\<close>

subsection \<open>Numbers and the conversion \<open>Number(string)\<close>\<close>

text \<open>
  A JavaScript number is \<open>NaN\<close>, an infinity or a finite value; every finite 64-bit float
  is a rational number. The conversion \<open>Number\<close> below gives a numeric literal the exact
  rational it denotes. JavaScript rounds that value to the nearest 64-bit float: it agrees
  with the exact value for the integers below \<open>2^53\<close> that version numbers are made of,
  and differs from it where the literal has more digits than a float holds, overflows to an
  infinity (\<open>1e400\<close>) or underflows to zero (\<open>1e-400\<close>). What is proved of
  \<open>compareSemver\<close> for all version strings is therefore proved for every conversion
  (\<open>compareSemver_by\<close>), and \<open>Number\<close> is used where concrete versions are compared.
\<close>

datatype number = NaN | NegInfinity | Finite rat | PosInfinity

text \<open>The relational operators \<open><\<close> and \<open>>\<close> of JavaScript on numbers: false when an
  operand is \<open>NaN\<close>.\<close>

fun js_lt :: "number \<Rightarrow> number \<Rightarrow> bool" where
  "js_lt NaN _ = False"
| "js_lt _ NaN = False"
| "js_lt NegInfinity NegInfinity = False"
| "js_lt NegInfinity _ = True"
| "js_lt (Finite a) NegInfinity = False"
| "js_lt (Finite a) (Finite b) = (a < b)"
| "js_lt (Finite a) PosInfinity = True"
| "js_lt PosInfinity _ = False"

definition js_gt :: "number \<Rightarrow> number \<Rightarrow> bool" where
  "js_gt a b = js_lt b a"

text \<open>\<open>x || 0\<close> for \<open>x\<close> a number or \<open>undefined\<close> (\<open>None\<close>): the falsy values
  \<open>undefined\<close>, \<open>NaN\<close>, \<open>0\<close> and \<open>-0\<close> give \<open>0\<close>.\<close>

definition or_zero :: "number option \<Rightarrow> number" where
  "or_zero x = (case x of None \<Rightarrow> Finite 0
                | Some n \<Rightarrow> if n = NaN \<or> n = Finite 0 then Finite 0 else n)"

text \<open>Array indexing \<open>xs[i]\<close>: \<open>undefined\<close> out of range.\<close>

definition index :: "'a list \<Rightarrow> nat \<Rightarrow> 'a option" where
  "index xs i = (if i < length xs then Some (xs ! i) else None)"

text \<open>White space of the ASCII range, which \<open>Number\<close> strips from both ends (tab, line
  feed, vertical tab, form feed, carriage return, space). JavaScript also strips the white
  space characters outside ASCII.\<close>

definition is_ws :: "char \<Rightarrow> bool" where
  "is_ws c = (c \<in> set [CHR 0x09, CHR 0x0A, CHR 0x0B, CHR 0x0C, CHR 0x0D, CHR 0x20])"

definition trim :: "string \<Rightarrow> string" where
  "trim s = rev (dropWhile is_ws (rev (dropWhile is_ws s)))"

text \<open>The value of a digit character, hexadecimal digits included.\<close>

definition digit_of :: "char \<Rightarrow> nat option" where
  "digit_of c =
     (let n = (of_char c :: nat) in
      if 48 \<le> n \<and> n \<le> 57 then Some (n - 48)
      else if 97 \<le> n \<and> n \<le> 102 then Some (n - 87)
      else if 65 \<le> n \<and> n \<le> 70 then Some (n - 55)
      else None)"

fun digits_value :: "nat \<Rightarrow> nat \<Rightarrow> string \<Rightarrow> nat option" where
  "digits_value base acc [] = Some acc"
| "digits_value base acc (c # cs) =
     (case digit_of c of
        None \<Rightarrow> None
      | Some d \<Rightarrow> if d < base then digits_value base (acc * base + d) cs else None)"

text \<open>A non-empty run of digits of the given base, and nothing else.\<close>

definition Digits :: "nat \<Rightarrow> string \<Rightarrow> nat option" where
  "Digits base s = (if s = [] then None else digits_value base 0 s)"

definition SignedInteger :: "string \<Rightarrow> int option" where
  "SignedInteger s =
     (case s of
        [] \<Rightarrow> None
      | c # r \<Rightarrow>
          if c = CHR ''+'' then map_option int (Digits 10 r)
          else if c = CHR ''-'' then map_option (\<lambda>n. - int n) (Digits 10 r)
          else map_option int (Digits 10 s))"

definition not_exp :: "char \<Rightarrow> bool" where
  "not_exp c = (c \<noteq> CHR ''e'' \<and> c \<noteq> CHR ''E'')"

definition not_dot :: "char \<Rightarrow> bool" where
  "not_dot c = (c \<noteq> CHR ''.'')"

text \<open>Mantissa of a decimal literal: its digits as a natural number and the number of
  digits after the decimal point (\<open>12.5\<close>, \<open>12.\<close>, \<open>.5\<close> or \<open>12\<close>).\<close>

definition Mantissa :: "string \<Rightarrow> (nat \<times> nat) option" where
  "Mantissa m =
     (let ip = takeWhile not_dot m; fr = dropWhile not_dot m in
      if fr = [] then map_option (\<lambda>n. (n, 0)) (Digits 10 ip)
      else let fp = tl fr in
        if ip = [] then map_option (\<lambda>n. (n, length fp)) (Digits 10 fp)
        else if fp = [] then map_option (\<lambda>n. (n, 0)) (Digits 10 ip)
        else (case (Digits 10 ip, Digits 10 fp) of
                (Some a, Some b) \<Rightarrow> Some (a * 10 ^ length fp + b, length fp)
              | _ \<Rightarrow> None))"

definition scale10 :: "nat \<Rightarrow> int \<Rightarrow> rat" where
  "scale10 n e = (if 0 \<le> e then of_nat n * 10 ^ nat e else of_nat n / 10 ^ nat (- e))"

definition StrUnsignedDecimalLiteral :: "string \<Rightarrow> number option" where
  "StrUnsignedDecimalLiteral s =
     (if s = ''Infinity'' then Some PosInfinity
      else
        let m = takeWhile not_exp s; x = dropWhile not_exp s;
            ex = (if x = [] then Some 0 else SignedInteger (tl x))
        in case (Mantissa m, ex) of
             (Some (n, d), Some e) \<Rightarrow> Some (Finite (scale10 n (e - int d)))
           | _ \<Rightarrow> None)"

definition negate :: "number \<Rightarrow> number" where
  "negate x = (case x of NaN \<Rightarrow> NaN | NegInfinity \<Rightarrow> PosInfinity
               | Finite r \<Rightarrow> Finite (- r) | PosInfinity \<Rightarrow> NegInfinity)"

definition StrDecimalLiteral :: "string \<Rightarrow> number option" where
  "StrDecimalLiteral s =
     (case s of
        [] \<Rightarrow> None
      | c # r \<Rightarrow>
          if c = CHR ''+'' then StrUnsignedDecimalLiteral r
          else if c = CHR ''-'' then map_option negate (StrUnsignedDecimalLiteral r)
          else StrUnsignedDecimalLiteral s)"

text \<open>\<open>0x\<close>, \<open>0o\<close> and \<open>0b\<close> literals (no sign).\<close>

definition NonDecimalIntegerLiteral :: "string \<Rightarrow> nat option" where
  "NonDecimalIntegerLiteral s =
     (case s of
        z # p # r \<Rightarrow>
          if z \<noteq> CHR ''0'' then None
          else if p = CHR ''x'' \<or> p = CHR ''X'' then Digits 16 r
          else if p = CHR ''o'' \<or> p = CHR ''O'' then Digits 8 r
          else if p = CHR ''b'' \<or> p = CHR ''B'' then Digits 2 r
          else None
      | _ \<Rightarrow> None)"

text \<open>\<open>Number(s)\<close> for a string \<open>s\<close>: the empty or blank string is \<open>0\<close>, a numeric literal
  is its value, anything else is \<open>NaN\<close>.\<close>

definition Number :: "string \<Rightarrow> number" where
  "Number s =
     (let t = trim s in
      if t = [] then Finite 0
      else case NonDecimalIntegerLiteral t of
             Some n \<Rightarrow> Finite (of_nat n)
           | None \<Rightarrow> (case StrDecimalLiteral t of Some v \<Rightarrow> v | None \<Rightarrow> NaN))"

text \<open>\<open>s.split(".")\<close>: the pieces between the dots; never empty (\<open>"".split(".")\<close> is
  \<open>[""]\<close>).\<close>

fun split_dot :: "string \<Rightarrow> string list" where
  "split_dot [] = [[]]"
| "split_dot (c # cs) =
     (if c = CHR ''.'' then [] # split_dot cs
      else (case split_dot cs of [] \<Rightarrow> [[c]] | w # ws \<Rightarrow> (c # w) # ws))"

section \<open>Version comparison (\<open>compareSemver\<close>)\<close>

text \<open>The loop of \<open>compareSemver\<close> from index \<open>i\<close> on.\<close>

function compareSemver_loop :: "number list \<Rightarrow> number list \<Rightarrow> nat \<Rightarrow> int" where
  "compareSemver_loop pa pb i =
     (if i < max (length pa) (length pb) then
        if js_gt (or_zero (index pa i)) (or_zero (index pb i)) then 1
        else if js_lt (or_zero (index pa i)) (or_zero (index pb i)) then - 1
        else compareSemver_loop pa pb (i + 1)
      else 0)"
  by pat_completeness auto
termination
  by (relation "measure (\<lambda>(pa, pb, i). max (length pa) (length pb) - i)") auto

declare compareSemver_loop.simps [simp del]

text \<open>
  \<open>compareSemver\<close> with the conversion of a segment to a number as a parameter: the body
  of the function, where \<open>N\<close> stands for the built-in \<open>Number\<close>. Every value that
  JavaScript's \<open>Number\<close> can return is a value of the type \<open>number\<close>, so the built-in
  conversion, with its rounding to 64-bit floats and its white space, is one such \<open>N\<close>.
\<close>

definition compareSemver_by :: "(string \<Rightarrow> number) \<Rightarrow> string \<Rightarrow> string \<Rightarrow> int" where
  "compareSemver_by N a b =
     compareSemver_loop (map N (split_dot a)) (map N (split_dot b)) 0"

text \<open>\<open>compareSemver\<close> itself, with the conversion \<open>Number\<close> of this theory.\<close>

definition compareSemver :: "string \<Rightarrow> string \<Rightarrow> int" where
  "compareSemver a b = compareSemver_by Number a b"


section \<open>Vulnerability records of the database\<close>

text \<open>
  The JSON of a vulnerability: \<open>{ id, summary, details, severity, affected: [ { ranges:
  [ { events: [ { introduced?, fixed? } ] } ] } ], references: [ { url } ] }\<close>. A property
  the code guards with \<open>||\<close>, \<open>!\<close> or \<open>!== undefined\<close> is optional (\<open>None\<close> when
  absent).
\<close>

record event =
  introduced :: "string option"
  fixed :: "string option"

record vrange =
  events :: "event list option"

record affected_entry =
  ranges :: "vrange list option"

record reference =
  url :: string

record vuln =
  id' :: string
  summary :: "string option"
  details :: "string option"
  severity :: "(string \<times> string) list option"
  affected :: "affected_entry list option"
  references :: "reference list option"

text \<open>Truthiness of a string-valued variable that may be \<open>null\<close>: \<open>null\<close> and the empty
  string are falsy.\<close>

definition truthy :: "string option \<Rightarrow> bool" where
  "truthy x = (case x of None \<Rightarrow> False | Some s \<Rightarrow> s \<noteq> [])"

text \<open>\<open>xs || []\<close> for an optional array.\<close>

definition or_empty :: "'a list option \<Rightarrow> 'a list" where
  "or_empty xs = (case xs of None \<Rightarrow> [] | Some l \<Rightarrow> l)"

section \<open>Range matching (\<open>isVulnerableAtOrBelow\<close>)\<close>

text \<open>The \<open>for\<close> loop over the events of a range: each event that has the property
  overwrites the variable.\<close>

definition scan_event :: "event \<Rightarrow> string option \<times> string option \<Rightarrow> string option \<times> string option" where
  "scan_event e acc =
     (case acc of (i, f) \<Rightarrow>
        (case introduced e of None \<Rightarrow> i | Some x \<Rightarrow> Some x,
         case fixed e of None \<Rightarrow> f | Some x \<Rightarrow> Some x))"

definition scan_events :: "event list \<Rightarrow> string option \<times> string option" where
  "scan_events es = fold scan_event es (None, None)"

text \<open>The callback of the inner \<open>some\<close>: does the range \<open>r\<close> cover the target version?\<close>

definition range_covers :: "string \<Rightarrow> vrange \<Rightarrow> bool" where
  "range_covers targetVersion r =
     (case scan_events (or_empty (events r)) of (i, f) \<Rightarrow>
        let introduced = (if \<not> truthy i \<or> i = Some ''0'' then ''0.0.0''
                          else (case i of Some x \<Rightarrow> x | None \<Rightarrow> ''0.0.0''))
        in if compareSemver targetVersion introduced < 0 then False
           else (case f of
                   Some fx \<Rightarrow> if fx \<noteq> [] \<and> compareSemver targetVersion fx > 0 then False else True
                 | None \<Rightarrow> True))"

definition isVulnerableAtOrBelow :: "vuln \<Rightarrow> string \<Rightarrow> bool" where
  "isVulnerableAtOrBelow v targetVersion =
     (case affected v of
        None \<Rightarrow> False
      | Some as \<Rightarrow>
          list_ex (\<lambda>a. list_ex (range_covers targetVersion) (or_empty (ranges a))) as)"

section \<open>Fixed versions of a vulnerability (\<open>extractFixes\<close>)\<close>

text \<open>\<open>Set.add\<close> on a set kept in insertion order, and \<open>[...new Set(xs)]\<close>.\<close>

definition set_add :: "'a \<Rightarrow> 'a list \<Rightarrow> 'a list" where
  "set_add x s = (if x \<in> set s then s else s @ [x])"

definition new_Set :: "'a list \<Rightarrow> 'a list" where
  "new_Set xs = fold set_add xs []"

definition extractFixes :: "vuln \<Rightarrow> string list" where
  "extractFixes v =
     fold (\<lambda>a. fold (\<lambda>r. fold (\<lambda>e fixes.
               case fixed e of
                 Some fx \<Rightarrow> if fx \<noteq> [] then set_add fx fixes else fixes
               | None \<Rightarrow> fixes)
             (or_empty (events r)))
           (or_empty (ranges a)))
       (or_empty (affected v)) []"

section \<open>Package URLs (\<open>parsePurl\<close>)\<close>

record purl_parts =
  registry :: string
  purl_component :: string
  version :: "string option"




section \<open>Querying the vulnerability database\<close>

definition CONCURRENCY :: nat where "CONCURRENCY = 2"
definition RETRY_LIMIT :: nat where "RETRY_LIMIT = 5"
definition INITIAL_DELAY :: nat where "INITIAL_DELAY = 1000"
definition OSV_PATH :: string where "OSV_PATH = ''/v1/query''"

text \<open>A work item: a component and its fork point, as stage 1 writes them.\<close>

record work_item =
  component :: string
  forkPoint :: string

text \<open>The body of a query, \<open>{ package: { purl } }\<close>, and a request: path and body.\<close>

record package_ref =
  purl :: string

record query =
  package :: package_ref

record request =
  req_path :: string
  req_data :: query

text \<open>
  What \<open>JSON.parse(body)\<close> gives, as far as \<open>osvRequest\<close> reads it: \<open>null\<close>, or a value
  whose property \<open>vulns\<close> is absent (\<open>None\<close>) or a list of vulnerabilities.
\<close>

datatype payload = Null | Object "vuln list option"

text \<open>
  What the network does with one request: a response with its status code and the
  result of parsing its body (\<open>None\<close> when \<open>JSON.parse\<close> throws), or a failure of the
  request itself.
\<close>

datatype response = Response int "payload option" | RequestFailed

datatype error = StatusError int | HttpError int | SyntaxError | NetworkError | TypeError
  | ReferenceError

text \<open>Only the error made for status 429 or a status from 500 on carries
  \<open>retryable = true\<close>.\<close>

fun retryable :: "error \<Rightarrow> bool" where
  "retryable (StatusError _) = True"
| "retryable _ = False"

text \<open>\<open>httpsPost\<close>: the promise resolves (\<open>Inr\<close>) or rejects (\<open>Inl\<close>). The first argument
  is the network the request is sent to.\<close>

definition httpsPost :: "(request \<Rightarrow> response) \<Rightarrow> string \<Rightarrow> query \<Rightarrow> error + payload" where
  "httpsPost net path data =
     (case net \<lparr>req_path = path, req_data = data\<rparr> of
        Response statusCode body \<Rightarrow>
          if statusCode = 429 \<or> statusCode \<ge> 500 then Inl (StatusError statusCode)
          else if statusCode < 200 \<or> statusCode \<ge> 300 then Inl (HttpError statusCode)
          else (case body of None \<Rightarrow> Inl SyntaxError | Some d \<Rightarrow> Inr d)
      | RequestFailed \<Rightarrow> Inl NetworkError)"

text \<open>What a run does to the outside world: requests sent and delays slept
  (milliseconds).\<close>

datatype effect = Sent request | Slept nat

definition osv_query :: "work_item \<Rightarrow> query" where
  "osv_query pkg = \<lparr>package = \<lparr>purl = component pkg\<rparr>\<rparr>"

definition after_effects :: "effect list \<Rightarrow> 'a \<times> effect list \<Rightarrow> 'a \<times> effect list" where
  "after_effects es r = (fst r, es @ snd r)"

text \<open>
  \<open>osvRequest(pkg, attempt)\<close>. \<open>net n\<close> is the network as the \<open>n\<close>-th attempt finds it.
  The result is the list returned and the effects in order. Reading \<open>data.vulns\<close> of
  \<open>null\<close> throws a \<open>TypeError\<close> inside the \<open>try\<close>, which is not retryable. The function is
  only ever called with \<open>attempt \<ge> 1\<close>.
\<close>

function osvRequest :: "(nat \<Rightarrow> request \<Rightarrow> response) \<Rightarrow> work_item \<Rightarrow> nat \<Rightarrow> vuln list \<times> effect list" where
  "osvRequest net pkg attempt =
     after_effects [Sent \<lparr>req_path = OSV_PATH, req_data = osv_query pkg\<rparr>]
       (case httpsPost (net attempt) OSV_PATH (osv_query pkg) of
          Inr data \<Rightarrow> (case data of Null \<Rightarrow> ([], []) | Object vulns \<Rightarrow> (or_empty vulns, []))
        | Inl err \<Rightarrow>
            if retryable err \<and> attempt \<le> RETRY_LIMIT then
              after_effects [Slept (INITIAL_DELAY * 2 ^ (attempt - 1))]
                (osvRequest net pkg (attempt + 1))
            else ([], []))"
  by pat_completeness auto
termination
  by (relation "measure (\<lambda>(net, pkg, attempt). RETRY_LIMIT + 1 - attempt)") auto

declare osvRequest.simps [simp del]

section \<open>The JavaScript \<open>Map\<close>\<close>

text \<open>
  A \<open>Map\<close> is a list of key-value pairs in insertion order with distinct keys: \<open>set\<close>
  replaces the value of a key that is present, where it stands, and appends a new key at
  the end; \<open>get\<close> of an absent key is \<open>undefined\<close> (\<open>None\<close>).
\<close>

type_synonym ('k, 'v) js_map = "('k \<times> 'v) list"

definition Map_get :: "('k, 'v) js_map \<Rightarrow> 'k \<Rightarrow> 'v option" where
  "Map_get m k = map_of m k"

definition Map_has :: "('k, 'v) js_map \<Rightarrow> 'k \<Rightarrow> bool" where
  "Map_has m k = (map_of m k \<noteq> None)"

fun Map_set :: "'k \<Rightarrow> 'v \<Rightarrow> ('k, 'v) js_map \<Rightarrow> ('k, 'v) js_map" where
  "Map_set k v [] = [(k, v)]"
| "Map_set k v (p # m) = (if fst p = k then (k, v) # m else p # Map_set k v m)"

definition Map_values :: "('k, 'v) js_map \<Rightarrow> 'v list" where
  "Map_values m = map snd m"

section \<open>The worker of stage 2\<close>

text \<open>A merged vulnerability, as stored in \<open>allVulns\<close>.\<close>

record vuln_record =
  record_id :: string
  record_summary :: string
  record_details :: string
  record_severity :: "(string \<times> string) list"
  record_affected :: "affected_entry list"
  fixedVersions :: "string list"
  record_references :: "string list"
  affectedComponents :: "string list"

text \<open>\<open>s || ""\<close> for an optional string.\<close>

definition or_blank :: "string option \<Rightarrow> string" where
  "or_blank s = (case s of None \<Rightarrow> [] | Some x \<Rightarrow> x)"

text \<open>
  The merge of one relevant vulnerability \<open>v\<close> found for the component \<open>cid\<close> into
  \<open>allVulns\<close> (the body of the loop over \<open>relevantVulns\<close>, after \<open>fixes\<close> is computed): a new
  identifier gets a fresh record, a known one has its \<open>fixedVersions\<close> united with \<open>fixes\<close>
  and \<open>cid\<close> pushed onto \<open>affectedComponents\<close> unless it is included. The record is an
  object held by the map, so changing it in place is a \<open>set\<close> of the changed record; a key
  that \<open>has\<close> finds is found by \<open>get\<close>, so the case \<open>None\<close> of the lookup does not arise.
\<close>

definition record_vuln :: "string \<Rightarrow> vuln \<Rightarrow> (string, vuln_record) js_map \<Rightarrow> (string, vuln_record) js_map" where
  "record_vuln cid v allVulns =
     (let fixes = extractFixes v in
      if \<not> Map_has allVulns (id' v) then
        Map_set (id' v)
          \<lparr>record_id = id' v,
           record_summary = or_blank (summary v),
           record_details = or_blank (details v),
           record_severity = or_empty (severity v),
           record_affected = or_empty (affected v),
           fixedVersions = fixes,
           record_references = map url (or_empty (references v)),
           affectedComponents = [cid]\<rparr> allVulns
      else
        (case Map_get allVulns (id' v) of
           None \<Rightarrow> allVulns
         | Some ex \<Rightarrow>
             let ex1 = ex\<lparr>fixedVersions := new_Set (fixedVersions ex @ fixes)\<rparr>;
                 ex2 = (if cid \<in> set (affectedComponents ex1) then ex1
                        else ex1\<lparr>affectedComponents := affectedComponents ex1 @ [cid]\<rparr>)
             in Map_set (id' v) ex2 allVulns))"

text \<open>One pass of the loop over \<open>relevantVulns\<close>: the counter and the map.\<close>

definition relevant_step :: "string \<Rightarrow> vuln \<Rightarrow> nat \<times> (string, vuln_record) js_map \<Rightarrow> nat \<times> (string, vuln_record) js_map" where
  "relevant_step cid v acc =
     (case acc of (remediatedCount, allVulns) \<Rightarrow>
        (if extractFixes v \<noteq> [] then remediatedCount + 1 else remediatedCount,
         record_vuln cid v allVulns))"

text \<open>
  The state the lanes share, and the lanes themselves. A lane has not started, is
  suspended at \<open>await osvRequest(pkg)\<close> for the item it dequeued, or has left its loop.
  The trace lists, in order, which lane dequeued which item and which lane resumed with
  which result of \<open>osvRequest\<close>.
\<close>

datatype lane = NotStarted | Awaiting work_item | Finished

datatype step = Dequeued nat work_item | Resumed nat work_item "vuln list" "effect list"

record pool =
  queue :: "work_item list"
  allVulns :: "(string, vuln_record) js_map"
  perPackageCounts :: "(string, nat) js_map"
  lanes :: "lane list"
  trace :: "step list"

text \<open>
  The rest of the loop body once \<open>osvRequest\<close> has returned \<open>vulns\<close> for \<open>pkg\<close>: nothing
  happens for an empty list (\<open>continue\<close>); otherwise the relevant vulnerabilities are
  merged and the count of the component is set.
\<close>

definition process_vulns :: "work_item \<Rightarrow> vuln list \<Rightarrow> pool \<Rightarrow> pool" where
  "process_vulns pkg vulns st =
     (if vulns = [] then st
      else
        let relevantVulns = filter (\<lambda>v. isVulnerableAtOrBelow v (forkPoint pkg)) vulns in
        case fold (relevant_step (component pkg)) relevantVulns (0, allVulns st) of
          (remediatedCount, allVulns1) \<Rightarrow>
            st\<lparr>allVulns := allVulns1,
               perPackageCounts := Map_set (component pkg) remediatedCount (perPackageCounts st)\<rparr>)"

text \<open>
  Lane \<open>i\<close> at the head of its loop: with an empty queue it leaves the loop, otherwise it
  shifts the first item off the queue and suspends at \<open>await osvRequest(pkg)\<close>. JavaScript
  runs this without interruption.
\<close>

definition worker_enter :: "nat \<Rightarrow> pool \<Rightarrow> pool" where
  "worker_enter i st =
     (case queue st of
        [] \<Rightarrow> st\<lparr>lanes := (lanes st)[i := Finished]\<rparr>
      | pkg # rest \<Rightarrow>
          st\<lparr>queue := rest, lanes := (lanes st)[i := Awaiting pkg],
             trace := trace st @ [Dequeued i pkg]\<rparr>)"

text \<open>
  Lane \<open>i\<close> resumes when its \<open>osvRequest\<close> settles, the network having behaved as
  \<open>net\<close> towards its attempts: it handles the result and goes round its loop, up to the
  next \<open>await\<close>, without interruption. A lane that is not suspended has nothing to resume.
\<close>

definition worker_resume :: "nat \<Rightarrow> (nat \<Rightarrow> request \<Rightarrow> response) \<Rightarrow> pool \<Rightarrow> pool" where
  "worker_resume i net st =
     (case index (lanes st) i of
        Some (Awaiting pkg) \<Rightarrow>
          (case osvRequest net pkg 1 of
             (vulns, effects) \<Rightarrow>
               worker_enter i
                 (process_vulns pkg vulns
                    (st\<lparr>trace := trace st @ [Resumed i pkg vulns effects]\<rparr>)))
      | _ \<Rightarrow> st)"

text \<open>
  \<open>main\<close> with \<open>n\<close> lanes: \<open>Array.from({ length: n }, () => worker(queue))\<close> starts the
  lanes one after the other, each running to its first \<open>await\<close>; then the lanes resume in
  the order in which their requests settle, which the schedule lists. \<open>Promise.all\<close>
  resolves when every lane has left its loop.
\<close>

definition main_start :: "nat \<Rightarrow> work_item list \<Rightarrow> pool" where
  "main_start n packages =
     fold worker_enter [0 ..< n]
       \<lparr>queue = packages, allVulns = [], perPackageCounts = [],
        lanes = replicate n NotStarted, trace = []\<rparr>"

definition run :: "(nat \<times> (nat \<Rightarrow> request \<Rightarrow> response)) list \<Rightarrow> pool \<Rightarrow> pool" where
  "run schedule st = fold (\<lambda>(i, net). worker_resume i net) schedule st"

definition main :: "nat \<Rightarrow> work_item list \<Rightarrow> (nat \<times> (nat \<Rightarrow> request \<Rightarrow> response)) list \<Rightarrow> pool" where
  "main n packages schedule = run schedule (main_start n packages)"

definition completed :: "pool \<Rightarrow> bool" where
  "completed st = list_all (\<lambda>l. l = Finished) (lanes st)"

section \<open>The catalog scrape of stage 1 (\<open>processResults\<close>)\<close>

text \<open>
  A catalog entry: \<open>{ component, versions: [ { oss: { forkPoint } } ] }\<close>. The code also
  reads a property \<open>componenty\<close> of the entry; it is \<open>undefined\<close> (\<open>None\<close>) unless the
  entry has one.
\<close>

record oss_info =
  oss_forkPoint :: string

record version_entry =
  oss :: oss_info

record catalog_item =
  item_component :: "string option"
  componenty :: "string option"
  versions :: "version_entry list"

text \<open>A loop whose body may throw: the first error ends it.\<close>

fun fold_result :: "('a \<Rightarrow> 's \<Rightarrow> error + 's) \<Rightarrow> 'a list \<Rightarrow> 's \<Rightarrow> error + 's" where
  "fold_result f [] s = Inr s"
| "fold_result f (x # xs) s =
     (case f x s of Inl e \<Rightarrow> Inl e | Inr s1 \<Rightarrow> fold_result f xs s1)"

text \<open>
  The callback of \<open>versionForkPoints.forEach\<close> for an entry whose component is \<open>c\<close>. The
  keys of the map are JavaScript values: \<open>Some c\<close> for a string, \<open>None\<close> for \<open>undefined\<close>.
  The catalog script calls \<open>compareSemver\<close> but does not define it (the function of
  that name lives in the other script), so the comparison is the parameter \<open>cmp\<close>, which
  may throw: \<open>\<lambda>a b. Inl ReferenceError\<close> is the script as it stands,
  \<open>\<lambda>a b. Inr (compareSemver a b)\<close> the script with that function in scope. Reading
  \<open>existing.forkPoint\<close> of an absent entry throws a \<open>TypeError\<close>.
\<close>

definition visit_forkPoint ::
  "(string \<Rightarrow> string \<Rightarrow> error + int) \<Rightarrow> catalog_item \<Rightarrow> string \<Rightarrow> string \<Rightarrow>
   (string option, work_item) js_map \<Rightarrow> error + (string option, work_item) js_map" where
  "visit_forkPoint cmp item c fp allComponentsMap =
     (if \<not> Map_has allComponentsMap (componenty item) then
        Inr (Map_set (Some c) \<lparr>component = c, forkPoint = fp\<rparr> allComponentsMap)
      else
        (case Map_get allComponentsMap (Some c) of
           None \<Rightarrow> Inl TypeError
         | Some existing \<Rightarrow>
             (case cmp fp (forkPoint existing) of
                Inl e \<Rightarrow> Inl e
              | Inr r \<Rightarrow>
                  if r > 0 then
                    Inr (Map_set (Some c) \<lparr>component = c, forkPoint = fp\<rparr> allComponentsMap)
                  else Inr allComponentsMap)))"

definition process_item ::
  "(string \<Rightarrow> string \<Rightarrow> error + int) \<Rightarrow> catalog_item \<Rightarrow>
   (string option, work_item) js_map \<Rightarrow> error + (string option, work_item) js_map" where
  "process_item cmp item allComponentsMap =
     (let versionForkPoints = map (\<lambda>version. oss_forkPoint (oss version)) (versions item) in
      case item_component item of
        None \<Rightarrow> Inr allComponentsMap
      | Some c \<Rightarrow>
          if c = [] then Inr allComponentsMap
          else fold_result (visit_forkPoint cmp item c) versionForkPoints allComponentsMap)"

definition processResults ::
  "(string \<Rightarrow> string \<Rightarrow> error + int) \<Rightarrow> catalog_item list \<Rightarrow>
   (string option, work_item) js_map \<Rightarrow> error + (string option, work_item) js_map" where
  "processResults cmp results allComponentsMap =
     fold_result (process_item cmp) results allComponentsMap"

text \<open>\<open>fetchAllPages\<close> over the pages as fetched, first page first: the values of the
  map, or the error thrown on the way.\<close>

definition fetchAllPages ::
  "(string \<Rightarrow> string \<Rightarrow> error + int) \<Rightarrow> catalog_item list list \<Rightarrow> error + work_item list" where
  "fetchAllPages cmp pages =
     (case fold_result (processResults cmp) pages [] of
        Inl e \<Rightarrow> Inl e
      | Inr allComponentsMap \<Rightarrow> Inr (Map_values allComponentsMap))"

section \<open>Auxiliary notions for the proofs\<close>

text \<open>The \<open>i\<close>-th numeric segment of a parsed version, as the loop of \<open>compareSemver\<close> reads
  it: \<open>pa[i] || 0\<close>.\<close>

definition segment :: "number list \<Rightarrow> nat \<Rightarrow> number" where
  "segment pa i = or_zero (index pa i)"

text \<open>Comparison of two segment sequences over \<open>k\<close> positions from position \<open>i\<close>.\<close>

fun lex_cmp :: "(nat \<Rightarrow> number) \<Rightarrow> (nat \<Rightarrow> number) \<Rightarrow> nat \<Rightarrow> nat \<Rightarrow> int" where
  "lex_cmp f g i 0 = 0"
| "lex_cmp f g i (Suc k) =
     (if js_gt (f i) (g i) then 1
      else if js_lt (f i) (g i) then - 1
      else lex_cmp f g (Suc i) k)"

text \<open>A vulnerability with one affected entry that has one range with the given events.\<close>

definition with_events :: "vuln \<Rightarrow> event list \<Rightarrow> vuln" where
  "with_events v es = v\<lparr>affected := Some [\<lparr>ranges = Some [\<lparr>events = Some es\<rparr>]\<rparr>]\<rparr>"






text \<open>The delays slept and the requests sent, read off a list of effects.\<close>

fun sleeps :: "effect list \<Rightarrow> nat list" where
  "sleeps [] = []"
| "sleeps (Slept d # es) = d # sleeps es"
| "sleeps (Sent r # es) = sleeps es"

fun requests :: "effect list \<Rightarrow> request list" where
  "requests [] = []"
| "requests (Sent r # es) = r # requests es"
| "requests (Slept d # es) = requests es"

text \<open>The request that \<open>osvRequest\<close> makes for a work item.\<close>

definition osv_request :: "work_item \<Rightarrow> request" where
  "osv_request pkg = \<lparr>req_path = OSV_PATH, req_data = osv_query pkg\<rparr>"

text \<open>A status that \<open>httpsPost\<close> treats as a transient failure.\<close>

definition transient_status :: "int \<Rightarrow> bool" where
  "transient_status st = (st = 429 \<or> st \<ge> 500)"

text \<open>What the \<open>n\<close>-th attempt for a work item meets: a transient failure (status 429 or
  from 500 on), or a permanent failure (another status outside 200..299, a body that does
  not parse, or a request that fails).\<close>

definition transient_at :: "(nat \<Rightarrow> request \<Rightarrow> response) \<Rightarrow> work_item \<Rightarrow> nat \<Rightarrow> bool" where
  "transient_at net pkg n =
     (case net n (osv_request pkg) of
        Response st body \<Rightarrow> transient_status st
      | RequestFailed \<Rightarrow> False)"

definition permanent_at :: "(nat \<Rightarrow> request \<Rightarrow> response) \<Rightarrow> work_item \<Rightarrow> nat \<Rightarrow> bool" where
  "permanent_at net pkg n =
     (case net n (osv_request pkg) of
        Response st body \<Rightarrow> \<not> transient_status st \<and> (st < 200 \<or> st \<ge> 300 \<or> body = None)
      | RequestFailed \<Rightarrow> True)"

text \<open>The effects of the failed attempts \<open>a, \<dots>, b - 1\<close>: each sends the request and
  sleeps for its delay.\<close>

definition backoff_effects :: "request \<Rightarrow> nat \<Rightarrow> nat \<Rightarrow> effect list" where
  "backoff_effects q a b =
     concat (map (\<lambda>j. [Sent q, Slept (INITIAL_DELAY * 2 ^ (j - 1))]) [a ..< b])"

text \<open>Concrete inputs for the examples: a work item, a vulnerability with the range
  \<open>introduced "0"\<close>, \<open>fixed "1.4.0"\<close>, and three behaviours of the network.\<close>

definition example_pkg :: work_item where
  "example_pkg = \<lparr>component = ''pkg:npm/left-pad'', forkPoint = ''1.3.0''\<rparr>"

definition example_vuln :: vuln where
  "example_vuln =
     \<lparr>id' = ''GHSA-1'', summary = Some ''example'', details = None, severity = None,
      affected = Some [\<lparr>ranges = Some [\<lparr>events = Some
        [\<lparr>introduced = Some ''0'', fixed = None\<rparr>,
         \<lparr>introduced = None, fixed = Some ''1.4.0''\<rparr>]\<rparr>]\<rparr>],
      references = None\<rparr>"

definition always_503 :: "nat \<Rightarrow> request \<Rightarrow> response" where
  "always_503 n r = Response 503 None"

definition four_500_then_200 :: "nat \<Rightarrow> request \<Rightarrow> response" where
  "four_500_then_200 n r =
     (if n \<le> 4 then Response 500 None
      else Response 200 (Some (Object (Some [example_vuln]))))"

definition two_429_then_404 :: "nat \<Rightarrow> request \<Rightarrow> response" where
  "two_429_then_404 n r = (if n \<le> 2 then Response 429 None else Response 404 None)"

text \<open>Reading the pool: the items the suspended lanes hold, the items dequeued and the
  items whose results were handled, in the order of the trace.\<close>

fun lane_items :: "lane \<Rightarrow> work_item list" where
  "lane_items (Awaiting pkg) = [pkg]"
| "lane_items NotStarted = []"
| "lane_items Finished = []"

definition in_flight :: "pool \<Rightarrow> work_item list" where
  "in_flight st = concat (map lane_items (lanes st))"

fun dequeued :: "step list \<Rightarrow> work_item list" where
  "dequeued [] = []"
| "dequeued (Dequeued i pkg # tr) = pkg # dequeued tr"
| "dequeued (Resumed i pkg vulns effects # tr) = dequeued tr"

fun resumed :: "step list \<Rightarrow> work_item list" where
  "resumed [] = []"
| "resumed (Resumed i pkg vulns effects # tr) = pkg # resumed tr"
| "resumed (Dequeued i pkg # tr) = resumed tr"

text \<open>The invariant of the pool for the initial queue \<open>packages\<close>: the items dequeued so
  far and the queue make up the initial queue, position by position; every dequeued item is
  held by a lane or has been handled; and once a lane has left its loop the queue is
  empty.\<close>

definition pool_inv :: "work_item list \<Rightarrow> pool \<Rightarrow> bool" where
  "pool_inv packages st =
     (dequeued (trace st) @ queue st = packages \<and>
      mset (resumed (trace st)) + mset (in_flight st) = mset (dequeued (trace st)) \<and>
      (Finished \<in> set (lanes st) \<longrightarrow> queue st = []))"

text \<open>A network that answers every attempt with status 200 and the given list, a queue
  of three work items and a schedule in which lane 1 resumes first.\<close>

definition answers :: "vuln list \<Rightarrow> nat \<Rightarrow> request \<Rightarrow> response" where
  "answers vs n r = Response 200 (Some (Object (Some vs)))"

definition example_packages :: "work_item list" where
  "example_packages =
     [\<lparr>component = ''pkg:npm/a'', forkPoint = ''1.0.0''\<rparr>,
      \<lparr>component = ''pkg:npm/b'', forkPoint = ''2.0.0''\<rparr>,
      \<lparr>component = ''pkg:npm/c'', forkPoint = ''0.1.0''\<rparr>]"

definition example_schedule :: "(nat \<times> (nat \<Rightarrow> request \<Rightarrow> response)) list" where
  "example_schedule =
     [(1, answers [example_vuln]), (0, answers [example_vuln]), (1, always_503), (0, answers [])]"

text \<open>A sequence of record operations of the aggregator: each reports a vulnerability
  for a component.\<close>

definition record_all :: "(string \<times> vuln) list \<Rightarrow> (string, vuln_record) js_map \<Rightarrow> (string, vuln_record) js_map" where
  "record_all reports m = fold (\<lambda>(cid, v). record_vuln cid v) reports m"

text \<open>The record made for a vulnerability that is new to the map.\<close>

definition fresh_record :: "string \<Rightarrow> vuln \<Rightarrow> vuln_record" where
  "fresh_record cid v =
     \<lparr>record_id = id' v,
      record_summary = or_blank (summary v),
      record_details = or_blank (details v),
      record_severity = or_empty (severity v),
      record_affected = or_empty (affected v),
      fixedVersions = extractFixes v,
      record_references = map url (or_empty (references v)),
      affectedComponents = [cid]\<rparr>"

text \<open>The merge of later reports into a stored record.\<close>

definition merge_report :: "string \<times> vuln \<Rightarrow> vuln_record \<Rightarrow> vuln_record" where
  "merge_report rep ex =
     ex\<lparr>fixedVersions := new_Set (fixedVersions ex @ extractFixes (snd rep)),
        affectedComponents := set_add (fst rep) (affectedComponents ex)\<rparr>"

text \<open>A vulnerability with the given identifier and a single fixed event.\<close>

definition fixed_in :: "string \<Rightarrow> string \<Rightarrow> vuln" where
  "fixed_in vid fx =
     \<lparr>id' = vid, summary = None, details = None, severity = None,
      affected = Some [\<lparr>ranges = Some [\<lparr>events = Some
        [\<lparr>introduced = Some ''0'', fixed = Some fx\<rparr>]\<rparr>]\<rparr>],
      references = None\<rparr>"

definition example_reports :: "(string \<times> vuln) list" where
  "example_reports =
     [(''pkg:npm/a'', fixed_in ''V1'' ''2.0.0''),
      (''pkg:npm/x'', fixed_in ''V2'' ''9.0.0''),
      (''pkg:npm/b'', fixed_in ''V1'' ''2.1.0''),
      (''pkg:npm/a'', fixed_in ''V1'' ''2.0.0'')]"

text \<open>What the trace records about the handled results: each is the result of
  \<open>osvRequest\<close> for its item on some behaviour of the network, and an item that got a
  non-empty list has its component in \<open>perPackageCounts\<close>.\<close>

definition steps_inv :: "pool \<Rightarrow> bool" where
  "steps_inv st =
     (\<forall>s \<in> set (trace st).
        case s of
          Dequeued i pkg \<Rightarrow> True
        | Resumed i pkg vulns effects \<Rightarrow>
            (\<exists>net. osvRequest net pkg 1 = (vulns, effects)) \<and>
            (vulns \<noteq> [] \<longrightarrow> Map_has (perPackageCounts st) (component pkg)))"

text \<open>
  For stage 1: the fork points of an entry, the fork points observed for a component over
  a list of entries in processing order, and the unconditional store that overwrites the
  entry of a component with every fork point in turn.
\<close>

definition forkPoints_of :: "catalog_item \<Rightarrow> string list" where
  "forkPoints_of item = map (\<lambda>version. oss_forkPoint (oss version)) (versions item)"

definition observed :: "string \<Rightarrow> catalog_item list \<Rightarrow> string list" where
  "observed c items =
     concat (map (\<lambda>item. if item_component item = Some c then forkPoints_of item else []) items)"

definition store_item :: "catalog_item \<Rightarrow> (string option, work_item) js_map \<Rightarrow> (string option, work_item) js_map" where
  "store_item item m =
     (case item_component item of
        None \<Rightarrow> m
      | Some c \<Rightarrow>
          if c = [] then m
          else fold (\<lambda>fp. Map_set (Some c) \<lparr>component = c, forkPoint = fp\<rparr>) (forkPoints_of item) m)"

text \<open>A catalog entry with the given component and fork points, and no other property.\<close>

definition entry :: "string \<Rightarrow> string list \<Rightarrow> catalog_item" where
  "entry c fps =
     \<lparr>item_component = Some c, componenty = None,
      versions = map (\<lambda>fp. \<lparr>oss = \<lparr>oss_forkPoint = fp\<rparr>\<rparr>) fps\<rparr>"

definition example_pages :: "catalog_item list list" where
  "example_pages =
     [[entry ''pkg:npm/a'' [''2.0.0'', ''1.0.0'']],
      [entry ''pkg:npm/b'' [''0.5.0''], entry ''pkg:npm/a'' [''1.5.0'']]]"

text \<open>A schedule that lets the lanes finish one after the other: lane 0 resumes \<open>k\<close>
  times, then lane 1, and so on, each time with the same behaviour of the network.\<close>

definition drain_schedule :: "nat \<Rightarrow> nat \<Rightarrow> (nat \<Rightarrow> request \<Rightarrow> response) \<Rightarrow> (nat \<times> (nat \<Rightarrow> request \<Rightarrow> response)) list" where
  "drain_schedule n k net = concat (map (\<lambda>i. replicate k (i, net)) [0 ..< n])"



section \<open>Properties of \<open>compareSemver\<close>\<close>

lemma loop_step:
  "i < max (length pa) (length pb) \<Longrightarrow>
   compareSemver_loop pa pb i =
     (if js_gt (or_zero (index pa i)) (or_zero (index pb i)) then 1
      else if js_lt (or_zero (index pa i)) (or_zero (index pb i)) then - 1
      else compareSemver_loop pa pb (Suc i))"
  by (subst compareSemver_loop.simps) simp

lemma loop_done: "max (length pa) (length pb) \<le> i \<Longrightarrow> compareSemver_loop pa pb i = 0"
  by (subst compareSemver_loop.simps) auto

lemma or_zero_not_NaN: "or_zero x \<noteq> NaN"
  by (simp add: or_zero_def split: option.splits)

lemma segment_not_NaN: "segment pa i \<noteq> NaN"
  by (simp add: segment_def or_zero_not_NaN)

lemma segment_beyond: "length pa \<le> i \<Longrightarrow> segment pa i = Finite 0"
  by (simp add: segment_def index_def or_zero_def)

lemma js_lt_irrefl: "\<not> js_lt x x"
  by (cases x) simp_all

lemma js_lt_asym: "js_lt x y \<Longrightarrow> \<not> js_lt y x"
  by (cases x; cases y) simp_all

lemma js_lt_trans: "js_lt x y \<Longrightarrow> js_lt y z \<Longrightarrow> js_lt x z"
  by (cases x; cases y; cases z) simp_all

lemma js_lt_total: "x \<noteq> NaN \<Longrightarrow> y \<noteq> NaN \<Longrightarrow> js_lt x y \<or> x = y \<or> js_lt y x"
  by (cases x; cases y) auto

text \<open>The loop agrees with the comparison over any number of positions that reaches the
  end of both arrays: beyond the end every segment is \<open>0\<close>.\<close>

lemma loop_lex_cmp:
  "max (length pa) (length pb) \<le> i + k \<Longrightarrow>
   compareSemver_loop pa pb i = lex_cmp (segment pa) (segment pb) i k"
proof (induction k arbitrary: i)
  case 0
  then show ?case by (simp add: loop_done)
next
  case (Suc k)
  have ih: "compareSemver_loop pa pb (Suc i) = lex_cmp (segment pa) (segment pb) (Suc i) k"
    using Suc.prems by (intro Suc.IH) simp
  show ?case
  proof (cases "i < max (length pa) (length pb)")
    case True
    then show ?thesis
      using ih by (simp add: loop_step segment_def[symmetric])
  next
    case False
    then have "segment pa i = Finite 0" "segment pb i = Finite 0"
      by (simp_all add: segment_beyond)
    moreover have "max (length pa) (length pb) \<le> i"
      using False by (simp add: not_less)
    then have "compareSemver_loop pa pb (Suc i) = 0" "compareSemver_loop pa pb i = 0"
      using loop_done[of pa pb i] loop_done[of pa pb "Suc i"] by simp_all
    ultimately show ?thesis
      using ih by (simp add: js_gt_def)
  qed
qed

lemma lex_cmp_refl: "lex_cmp f f i k = 0"
  by (induction k arbitrary: i) (simp_all add: js_gt_def js_lt_irrefl)

lemma lex_cmp_sym:
  "(\<And>j. f j \<noteq> NaN) \<Longrightarrow> (\<And>j. g j \<noteq> NaN) \<Longrightarrow> lex_cmp f g i k = - lex_cmp g f i k"
proof (induction k arbitrary: i)
  case 0
  then show ?case by simp
next
  case (Suc k)
  then show ?case
    using js_lt_asym[of "f i" "g i"] by (auto simp: js_gt_def)
qed

lemma lex_cmp_trans:
  assumes "\<And>j. f j \<noteq> NaN" "\<And>j. g j \<noteq> NaN" "\<And>j. h j \<noteq> NaN"
  shows "lex_cmp f g i k \<le> 0 \<Longrightarrow> lex_cmp g h i k \<le> 0 \<Longrightarrow> lex_cmp f h i k \<le> 0"
proof (induction k arbitrary: i)
  case 0
  then show ?case by simp
next
  case (Suc k)
  have fg: "\<not> js_lt (g i) (f i)"
    using Suc.prems(1) by (auto simp: js_gt_def split: if_splits)
  have gh: "\<not> js_lt (h i) (g i)"
    using Suc.prems(2) by (auto simp: js_gt_def split: if_splits)
  consider (lt1) "js_lt (f i) (g i)" | (eq1) "f i = g i"
    using fg js_lt_total[OF assms(1)[of i] assms(2)[of i]] by blast
  then show ?case
  proof cases
    case lt1
    consider (lt2) "js_lt (g i) (h i)" | (eq2) "g i = h i"
      using gh js_lt_total[OF assms(2)[of i] assms(3)[of i]] by blast
    then have "js_lt (f i) (h i)"
      using lt1 js_lt_trans by cases auto
    then show ?thesis
      using js_lt_asym[of "f i" "h i"] by (simp add: js_gt_def)
  next
    case eq1
    consider (lt2) "js_lt (g i) (h i)" | (eq2) "g i = h i"
      using gh js_lt_total[OF assms(2)[of i] assms(3)[of i]] by blast
    then show ?thesis
    proof cases
      case lt2
      then show ?thesis
        using eq1 js_lt_asym[of "f i" "h i"] by (simp add: js_gt_def)
    next
      case eq2
      have "lex_cmp f g (Suc i) k \<le> 0"
        using Suc.prems(1) eq1 by (simp add: js_gt_def js_lt_irrefl)
      moreover have "lex_cmp g h (Suc i) k \<le> 0"
        using Suc.prems(2) eq2 by (simp add: js_gt_def js_lt_irrefl)
      ultimately have "lex_cmp f h (Suc i) k \<le> 0"
        by (rule Suc.IH)
      then show ?thesis
        using eq1 eq2 by (simp add: js_gt_def js_lt_irrefl)
    qed
  qed
qed

lemma compareSemver_by_lex:
  "length (split_dot a) \<le> k \<Longrightarrow> length (split_dot b) \<le> k \<Longrightarrow>
   compareSemver_by N a b =
     lex_cmp (segment (map N (split_dot a))) (segment (map N (split_dot b))) 0 k"
  unfolding compareSemver_by_def by (rule loop_lex_cmp) simp

lemma compareSemver_by_refl: "compareSemver_by N a a = 0"
  using compareSemver_by_lex[of a "length (split_dot a)" a N] by (simp add: lex_cmp_refl)

lemma compareSemver_by_sym: "compareSemver_by N a b = - compareSemver_by N b a"
proof -
  define k where "k = max (length (split_dot a)) (length (split_dot b))"
  have "compareSemver_by N a b =
      lex_cmp (segment (map N (split_dot a))) (segment (map N (split_dot b))) 0 k"
    by (rule compareSemver_by_lex) (simp_all add: k_def)
  moreover have "compareSemver_by N b a =
      lex_cmp (segment (map N (split_dot b))) (segment (map N (split_dot a))) 0 k"
    by (rule compareSemver_by_lex) (simp_all add: k_def)
  ultimately show ?thesis
    using lex_cmp_sym[of "segment (map N (split_dot a))"
        "segment (map N (split_dot b))" 0 k]
    by (simp add: segment_not_NaN)
qed

lemma compareSemver_by_trans:
  assumes "compareSemver_by N a b \<le> 0" and "compareSemver_by N b c \<le> 0"
  shows "compareSemver_by N a c \<le> 0"
proof -
  define k where
    "k = max (length (split_dot a)) (max (length (split_dot b)) (length (split_dot c)))"
  define f where "f = segment (map N (split_dot a))"
  define g where "g = segment (map N (split_dot b))"
  define h where "h = segment (map N (split_dot c))"
  have ab: "compareSemver_by N a b = lex_cmp f g 0 k"
    and bc: "compareSemver_by N b c = lex_cmp g h 0 k"
    and ac: "compareSemver_by N a c = lex_cmp f h 0 k"
    unfolding f_def g_def h_def by (rule compareSemver_by_lex; simp add: k_def)+
  have nn: "\<And>j. f j \<noteq> NaN" "\<And>j. g j \<noteq> NaN" "\<And>j. h j \<noteq> NaN"
    by (simp_all add: f_def g_def h_def segment_not_NaN)
  show ?thesis
    using assms lex_cmp_trans[of f g h 0 k] nn unfolding ab bc ac by blast
qed



text \<open>The two versions of the examples, for a conversion that reads the digits \<open>0\<close>,
  \<open>1\<close>, \<open>2\<close> and \<open>9\<close> as JavaScript does.\<close>

lemma split_dot_examples:
  "split_dot ''1.2.0'' = [''1'', ''2'', ''0'']" "split_dot ''1.2'' = [''1'', ''2'']"
  "split_dot ''2.0.0'' = [''2'', ''0'', ''0'']" "split_dot ''1.9.9'' = [''1'', ''9'', ''9'']"
  by code_simp+

lemma loop_examples:
  "compareSemver_loop [Finite 1, Finite 2, Finite 0] [Finite 1, Finite 2] 0 = 0"
  "compareSemver_loop [Finite 2, Finite 0, Finite 0] [Finite 1, Finite 9, Finite 9] 0 = 1"
  by code_simp+

lemma compareSemver_by_examples:
  assumes "N ''0'' = Finite 0" "N ''1'' = Finite 1" "N ''2'' = Finite 2" "N ''9'' = Finite 9"
  shows "compareSemver_by N ''1.2.0'' ''1.2'' = 0" and "compareSemver_by N ''2.0.0'' ''1.9.9'' = 1"
  by (simp_all add: compareSemver_by_def split_dot_examples assms loop_examples)

lemma Number_digits:
  "Number ''0'' = Finite 0" "Number ''1'' = Finite 1" "Number ''2'' = Finite 2"
  "Number ''9'' = Finite 9"
  by code_simp+

text \<open>
  Claim C7. For all version strings \<open>a\<close>, \<open>b\<close>, \<open>c\<close>, and whatever number the
  conversion gives each segment: \<open>compareSemver a a = 0\<close>;
  \<open>compareSemver a b = - compareSemver b a\<close>; \<open>compareSemver a b \<le> 0\<close> and
  \<open>compareSemver b c \<le> 0\<close> imply \<open>compareSemver a c \<le> 0\<close>. For every conversion that
  reads the digits \<open>0\<close>, \<open>1\<close>, \<open>2\<close> and \<open>9\<close> as their values, and so for
  \<open>Number\<close>: \<open>compareSemver "1.2.0" "1.2" = 0\<close> and
  \<open>compareSemver "2.0.0" "1.9.9" = 1\<close>.
\<close>

theorem compareSemver_preorder:
  "compareSemver_by N a a = 0 \<and>
   compareSemver_by N a b = - compareSemver_by N b a \<and>
   (compareSemver_by N a b \<le> 0 \<and> compareSemver_by N b c \<le> 0 \<longrightarrow>
      compareSemver_by N a c \<le> 0) \<and>
   (N ''0'' = Finite 0 \<and> N ''1'' = Finite 1 \<and> N ''2'' = Finite 2 \<and> N ''9'' = Finite 9 \<longrightarrow>
      compareSemver_by N ''1.2.0'' ''1.2'' = 0 \<and>
      compareSemver_by N ''2.0.0'' ''1.9.9'' = 1) \<and>
   compareSemver a b = compareSemver_by Number a b \<and>
   compareSemver ''1.2.0'' ''1.2'' = 0 \<and>
   compareSemver ''2.0.0'' ''1.9.9'' = 1"
proof -
  have 1: "compareSemver_by N a a = 0"
    by (rule compareSemver_by_refl)
  have 2: "compareSemver_by N a b = - compareSemver_by N b a"
    by (rule compareSemver_by_sym)
  have 3: "compareSemver_by N a b \<le> 0 \<and> compareSemver_by N b c \<le> 0 \<longrightarrow>
      compareSemver_by N a c \<le> 0"
    using compareSemver_by_trans by blast
  have 4: "N ''0'' = Finite 0 \<and> N ''1'' = Finite 1 \<and> N ''2'' = Finite 2 \<and> N ''9'' = Finite 9 \<longrightarrow>
      compareSemver_by N ''1.2.0'' ''1.2'' = 0 \<and>
      compareSemver_by N ''2.0.0'' ''1.9.9'' = 1"
    using compareSemver_by_examples[of N] by blast
  have 5: "compareSemver a b = compareSemver_by Number a b"
    by (simp add: compareSemver_def)
  have 6: "compareSemver ''1.2.0'' ''1.2'' = 0" "compareSemver ''2.0.0'' ''1.9.9'' = 1"
    unfolding compareSemver_def by (rule compareSemver_by_examples; rule Number_digits)+
  show ?thesis
    using 1 2 3 4 5 6 by blast
qed

theorem compareSemver_preorder_witness:
  "compareSemver_by Number ''1.0'' ''1.5'' \<le> 0 \<and> compareSemver_by Number ''1.5'' ''2'' \<le> 0 \<and>
   compareSemver_by Number ''1.0'' ''2'' \<le> 0 \<and> compareSemver_by Number ''1.0'' ''1.0'' = 0 \<and>
   compareSemver_by Number ''1.0'' ''1.5'' = - compareSemver_by Number ''1.5'' ''1.0'' \<and>
   Number ''0'' = Finite 0 \<and> Number ''1'' = Finite 1 \<and> Number ''2'' = Finite 2 \<and>
   Number ''9'' = Finite 9 \<and>
   compareSemver_by Number ''1.2.0'' ''1.2'' = 0 \<and>
   compareSemver_by Number ''2.0.0'' ''1.9.9'' = 1"
proof -
  have 1: "compareSemver_by Number ''1.0'' ''1.5'' \<le> 0" by code_simp
  have 2: "compareSemver_by Number ''1.5'' ''2'' \<le> 0" by code_simp
  show ?thesis
    using 1 2 Number_digits compareSemver_preorder[of Number "''1.0''" "''1.5''" "''2''"]
    by blast
qed

section \<open>Properties of \<open>isVulnerableAtOrBelow\<close>\<close>

lemma cmp_examples:
  "compareSemver ''1.5.0'' ''1.0.0'' = 1" "compareSemver ''1.5.0'' ''2.0.0'' = - 1"
  "compareSemver ''1.0.0'' ''1.0.0'' = 0" "compareSemver ''1.0.0'' ''2.0.0'' = - 1"
  "compareSemver ''2.0.0'' ''1.0.0'' = 1" "compareSemver ''2.0.0'' ''2.0.0'' = 0"
  "compareSemver ''0.9.0'' ''1.0.0'' = - 1" "compareSemver ''2.0.1'' ''1.0.0'' = 1"
  "compareSemver ''2.0.1'' ''2.0.0'' = 1"
  by code_simp+

lemma with_events_covers:
  "isVulnerableAtOrBelow (with_events v es) t = range_covers t \<lparr>events = Some es\<rparr>"
  by (simp add: isVulnerableAtOrBelow_def with_events_def or_empty_def)

lemma range_two_events:
  "range_covers t \<lparr>events = Some [\<lparr>introduced = Some ''1.0.0'', fixed = None\<rparr>,
      \<lparr>introduced = None, fixed = Some ''2.0.0''\<rparr>]\<rparr> =
   (\<not> compareSemver t ''1.0.0'' < 0 \<and> \<not> compareSemver t ''2.0.0'' > 0)"
  by (simp add: range_covers_def scan_events_def scan_event_def or_empty_def truthy_def)

lemma range_one_event:
  "range_covers t \<lparr>events = Some [\<lparr>introduced = Some ''1.0.0'', fixed = Some ''2.0.0''\<rparr>]\<rparr> =
   (\<not> compareSemver t ''1.0.0'' < 0 \<and> \<not> compareSemver t ''2.0.0'' > 0)"
  by (simp add: range_covers_def scan_events_def scan_event_def or_empty_def truthy_def)

text \<open>
  Claim C2, as the code has it. For a vulnerability whose single affected entry has a single
  range with events introduced \<open>"1.0.0"\<close> and fixed \<open>"2.0.0"\<close> (as two events or as one),
  \<open>isVulnerableAtOrBelow\<close> returns true at the target versions \<open>"1.5.0"\<close> and \<open>"1.0.0"\<close>
  and also at the fixed version \<open>"2.0.0"\<close> itself: the code requires the target to be at
  most the fixed version. It returns false at \<open>"0.9.0"\<close>.
\<close>

theorem range_1_to_2_examples:
  "isVulnerableAtOrBelow (with_events v [\<lparr>introduced = Some ''1.0.0'', fixed = None\<rparr>,
       \<lparr>introduced = None, fixed = Some ''2.0.0''\<rparr>]) ''1.5.0'' \<and>
   isVulnerableAtOrBelow (with_events v [\<lparr>introduced = Some ''1.0.0'', fixed = None\<rparr>,
       \<lparr>introduced = None, fixed = Some ''2.0.0''\<rparr>]) ''1.0.0'' \<and>
   isVulnerableAtOrBelow (with_events v [\<lparr>introduced = Some ''1.0.0'', fixed = None\<rparr>,
       \<lparr>introduced = None, fixed = Some ''2.0.0''\<rparr>]) ''2.0.0'' \<and>
   \<not> isVulnerableAtOrBelow (with_events v [\<lparr>introduced = Some ''1.0.0'', fixed = None\<rparr>,
       \<lparr>introduced = None, fixed = Some ''2.0.0''\<rparr>]) ''0.9.0'' \<and>
   isVulnerableAtOrBelow
     (with_events v [\<lparr>introduced = Some ''1.0.0'', fixed = Some ''2.0.0''\<rparr>]) ''1.5.0'' \<and>
   isVulnerableAtOrBelow
     (with_events v [\<lparr>introduced = Some ''1.0.0'', fixed = Some ''2.0.0''\<rparr>]) ''1.0.0'' \<and>
   isVulnerableAtOrBelow
     (with_events v [\<lparr>introduced = Some ''1.0.0'', fixed = Some ''2.0.0''\<rparr>]) ''2.0.0'' \<and>
   \<not> isVulnerableAtOrBelow
     (with_events v [\<lparr>introduced = Some ''1.0.0'', fixed = Some ''2.0.0''\<rparr>]) ''0.9.0''"
  by (simp add: with_events_covers range_two_events range_one_event cmp_examples)

text \<open>
  The claim as the specification states it (not affected at \<open>"2.0.0"\<close>) fails: with the
  range \<open>introduced "1.0.0"\<close>, \<open>fixed "2.0.0"\<close> the function returns true at \<open>"2.0.0"\<close>.
\<close>

theorem range_1_to_2_fixed_version_counterexample:
  "isVulnerableAtOrBelow
     \<lparr>id' = ''V1'', summary = None, details = None, severity = None,
      affected = Some [\<lparr>ranges = Some [\<lparr>events = Some
        [\<lparr>introduced = Some ''1.0.0'', fixed = None\<rparr>,
         \<lparr>introduced = None, fixed = Some ''2.0.0''\<rparr>]\<rparr>]\<rparr>],
      references = None\<rparr> ''2.0.0'' = True"
  by code_simp










lemma not_greater_zero_iff: "(\<not> compareSemver t f > 0) = (compareSemver t f \<le> 0)"
  by linarith





section \<open>Properties of \<open>osvRequest\<close>\<close>

lemma httpsPost_transient:
  "net \<lparr>req_path = path, req_data = d\<rparr> = Response st body \<Longrightarrow> transient_status st \<Longrightarrow>
   httpsPost net path d = Inl (StatusError st)"
  by (auto simp: httpsPost_def transient_status_def)

lemma httpsPost_ok:
  "net \<lparr>req_path = path, req_data = d\<rparr> = Response st (Some p) \<Longrightarrow> 200 \<le> st \<Longrightarrow> st < 300 \<Longrightarrow>
   httpsPost net path d = Inr p"
  by (auto simp: httpsPost_def)

lemma httpsPost_retryable_iff:
  "(\<exists>e. httpsPost net path d = Inl e \<and> retryable e) =
   (\<exists>st body. net \<lparr>req_path = path, req_data = d\<rparr> = Response st body \<and> transient_status st)"
  by (auto simp: httpsPost_def transient_status_def split: response.splits option.splits if_splits)

lemma osvRequest_resolved:
  "httpsPost (net a) OSV_PATH (osv_query pkg) = Inr (Object vs) \<Longrightarrow>
   osvRequest net pkg a = (or_empty vs, [Sent (osv_request pkg)])"
  by (subst osvRequest.simps) (simp add: after_effects_def osv_request_def)

lemma osvRequest_null:
  "httpsPost (net a) OSV_PATH (osv_query pkg) = Inr Null \<Longrightarrow>
   osvRequest net pkg a = ([], [Sent (osv_request pkg)])"
  by (subst osvRequest.simps) (simp add: after_effects_def osv_request_def)

lemma osvRequest_permanent:
  "httpsPost (net a) OSV_PATH (osv_query pkg) = Inl e \<Longrightarrow> \<not> retryable e \<Longrightarrow>
   osvRequest net pkg a = ([], [Sent (osv_request pkg)])"
  by (subst osvRequest.simps) (simp add: after_effects_def osv_request_def)

lemma osvRequest_exhausted:
  "httpsPost (net a) OSV_PATH (osv_query pkg) = Inl e \<Longrightarrow> RETRY_LIMIT < a \<Longrightarrow>
   osvRequest net pkg a = ([], [Sent (osv_request pkg)])"
  by (subst osvRequest.simps) (simp add: after_effects_def osv_request_def)

lemma osvRequest_retry:
  "httpsPost (net a) OSV_PATH (osv_query pkg) = Inl e \<Longrightarrow> retryable e \<Longrightarrow> a \<le> RETRY_LIMIT \<Longrightarrow>
   osvRequest net pkg a =
     (fst (osvRequest net pkg (Suc a)),
      Sent (osv_request pkg) # Slept (INITIAL_DELAY * 2 ^ (a - 1)) #
        snd (osvRequest net pkg (Suc a)))"
  by (subst osvRequest.simps) (simp add: after_effects_def osv_request_def)

lemma osvRequest_transient:
  assumes "net a (osv_request pkg) = Response st body" "transient_status st" "a \<le> RETRY_LIMIT"
  shows "osvRequest net pkg a =
     (fst (osvRequest net pkg (Suc a)),
      Sent (osv_request pkg) # Slept (INITIAL_DELAY * 2 ^ (a - 1)) #
        snd (osvRequest net pkg (Suc a)))"
proof -
  have "httpsPost (net a) OSV_PATH (osv_query pkg) = Inl (StatusError st)"
    using assms(1,2) by (intro httpsPost_transient) (simp_all add: osv_request_def)
  then show ?thesis
    using assms(3) osvRequest_retry[of net a pkg "StatusError st"] by simp
qed

text \<open>Every outcome of one attempt.\<close>

lemma osvRequest_cases:
  obtains (resolved) vs where "httpsPost (net a) OSV_PATH (osv_query pkg) = Inr (Object vs)"
      "osvRequest net pkg a = (or_empty vs, [Sent (osv_request pkg)])"
  | (failed) "\<forall>vs. httpsPost (net a) OSV_PATH (osv_query pkg) \<noteq> Inr (Object vs)"
      "osvRequest net pkg a = ([], [Sent (osv_request pkg)])"
  | (retry) e where "httpsPost (net a) OSV_PATH (osv_query pkg) = Inl e" "retryable e"
      "a \<le> RETRY_LIMIT"
      "osvRequest net pkg a =
        (fst (osvRequest net pkg (Suc a)),
         Sent (osv_request pkg) # Slept (INITIAL_DELAY * 2 ^ (a - 1)) #
           snd (osvRequest net pkg (Suc a)))"
proof (cases "httpsPost (net a) OSV_PATH (osv_query pkg)")
  case (Inr p)
  then show ?thesis
    using resolved failed osvRequest_resolved osvRequest_null by (cases p) auto
next
  case (Inl e)
  show ?thesis
  proof (cases "retryable e \<and> a \<le> RETRY_LIMIT")
    case True
    then show ?thesis using Inl retry osvRequest_retry by blast
  next
    case False
    then have "osvRequest net pkg a = ([], [Sent (osv_request pkg)])"
      using Inl osvRequest_permanent[of net a pkg e] osvRequest_exhausted[of net a pkg e]
      by (cases "retryable e") auto
    then show ?thesis using Inl failed by simp
  qed
qed

lemma osvRequest_schedule:
  "1 \<le> a \<Longrightarrow> a \<le> Suc RETRY_LIMIT \<Longrightarrow>
   (\<exists>n. a + n \<le> Suc RETRY_LIMIT \<and>
        sleeps (snd (osvRequest net pkg a)) = map (\<lambda>j. INITIAL_DELAY * 2 ^ (j - 1)) [a ..< a + n] \<and>
        requests (snd (osvRequest net pkg a)) = replicate (Suc n) (osv_request pkg))"
proof (induction "Suc RETRY_LIMIT - a" arbitrary: a)
  case 0
  then have a: "RETRY_LIMIT < a" by simp
  show ?case
  proof (cases rule: osvRequest_cases[of net a pkg])
    case (resolved vs)
    then show ?thesis using 0 by (intro exI[of _ 0]) simp
  next
    case failed
    then show ?thesis using 0 by (intro exI[of _ 0]) simp
  next
    case (retry e)
    then show ?thesis using a by simp
  qed
next
  case (Suc k)
  show ?case
  proof (cases rule: osvRequest_cases[of net a pkg])
    case (resolved vs)
    then show ?thesis using Suc.prems by (intro exI[of _ 0]) simp
  next
    case failed
    then show ?thesis using Suc.prems by (intro exI[of _ 0]) simp
  next
    case (retry e)
    have "\<exists>n. Suc a + n \<le> Suc RETRY_LIMIT \<and>
        sleeps (snd (osvRequest net pkg (Suc a))) =
          map (\<lambda>j. INITIAL_DELAY * 2 ^ (j - 1)) [Suc a ..< Suc a + n] \<and>
        requests (snd (osvRequest net pkg (Suc a))) = replicate (Suc n) (osv_request pkg)"
      using Suc.hyps(2) Suc.prems retry(3) by (intro Suc.hyps(1)) simp_all
    then obtain n where n: "Suc a + n \<le> Suc RETRY_LIMIT"
      "sleeps (snd (osvRequest net pkg (Suc a))) =
          map (\<lambda>j. INITIAL_DELAY * 2 ^ (j - 1)) [Suc a ..< Suc a + n]"
      "requests (snd (osvRequest net pkg (Suc a))) = replicate (Suc n) (osv_request pkg)"
      by blast
    have "[a ..< a + Suc n] = a # [Suc a ..< Suc a + n]"
      by (simp add: upt_conv_Cons)
    then show ?thesis
      using n retry(4) by (intro exI[of _ "Suc n"]) simp
  qed
qed

lemma osvRequest_result:
  "fst (osvRequest net pkg a) = [] \<or>
   (\<exists>k vs. a \<le> k \<and> httpsPost (net k) OSV_PATH (osv_query pkg) = Inr (Object (Some vs)) \<and>
      fst (osvRequest net pkg a) = vs)"
proof (induction net pkg a rule: osvRequest.induct)
  case (1 net pkg a)
  show ?case
  proof (cases rule: osvRequest_cases[of net a pkg])
    case (resolved vs)
    then show ?thesis by (cases vs) (auto simp: or_empty_def)
  next
    case failed
    then show ?thesis by simp
  next
    case (retry e)
    then have "fst (osvRequest net pkg (a + 1)) = [] \<or>
      (\<exists>k vs. a + 1 \<le> k \<and> httpsPost (net k) OSV_PATH (osv_query pkg) = Inr (Object (Some vs)) \<and>
         fst (osvRequest net pkg (a + 1)) = vs)"
      by (intro "1.IH") simp_all
    then show ?thesis
      using retry(4) by (auto intro: Suc_leD)
  qed
qed


lemma transient_at_post:
  "transient_at net pkg n \<Longrightarrow>
   \<exists>st. httpsPost (net n) OSV_PATH (osv_query pkg) = Inl (StatusError st)"
  by (auto simp: transient_at_def httpsPost_def transient_status_def osv_request_def
      split: response.splits)

lemma permanent_at_post:
  "permanent_at net pkg n \<Longrightarrow>
   \<exists>e. httpsPost (net n) OSV_PATH (osv_query pkg) = Inl e \<and> \<not> retryable e"
  by (auto simp: permanent_at_def httpsPost_def transient_status_def osv_request_def
      split: response.splits)

lemma osvRequest_at_transient:
  "transient_at net pkg a \<Longrightarrow> a \<le> RETRY_LIMIT \<Longrightarrow>
   osvRequest net pkg a =
     (fst (osvRequest net pkg (Suc a)),
      Sent (osv_request pkg) # Slept (INITIAL_DELAY * 2 ^ (a - 1)) #
        snd (osvRequest net pkg (Suc a)))"
  using transient_at_post[of net pkg a] osvRequest_retry[of net a pkg] by auto

lemma osvRequest_at_permanent:
  "permanent_at net pkg a \<Longrightarrow> osvRequest net pkg a = ([], [Sent (osv_request pkg)])"
  using permanent_at_post[of net pkg a] osvRequest_permanent[of net a pkg] by auto

lemma osvRequest_at_exhausted:
  "transient_at net pkg a \<Longrightarrow> RETRY_LIMIT < a \<Longrightarrow>
   osvRequest net pkg a = ([], [Sent (osv_request pkg)])"
  using transient_at_post[of net pkg a] osvRequest_exhausted[of net a pkg] by auto

lemma backoff_effects_Cons:
  "a < b \<Longrightarrow> backoff_effects q a b =
     Sent q # Slept (INITIAL_DELAY * 2 ^ (a - 1)) # backoff_effects q (Suc a) b"
  by (simp add: backoff_effects_def upt_conv_Cons)

lemma backoff_effects_Nil: "b \<le> a \<Longrightarrow> backoff_effects q a b = []"
  by (simp add: backoff_effects_def)

lemma osvRequest_skip:
  "a \<le> b \<Longrightarrow> b \<le> Suc RETRY_LIMIT \<Longrightarrow> (\<forall>n. a \<le> n \<and> n < b \<longrightarrow> transient_at net pkg n) \<Longrightarrow>
   osvRequest net pkg a =
     (fst (osvRequest net pkg b), backoff_effects (osv_request pkg) a b @ snd (osvRequest net pkg b))"
proof (induction "b - a" arbitrary: a)
  case 0
  then show ?case by (simp add: backoff_effects_Nil)
next
  case (Suc k)
  then have ab: "a < b" by simp
  have "osvRequest net pkg a =
     (fst (osvRequest net pkg (Suc a)),
      Sent (osv_request pkg) # Slept (INITIAL_DELAY * 2 ^ (a - 1)) #
        snd (osvRequest net pkg (Suc a)))"
    using Suc.prems ab by (intro osvRequest_at_transient) simp_all
  moreover have "osvRequest net pkg (Suc a) =
     (fst (osvRequest net pkg b),
      backoff_effects (osv_request pkg) (Suc a) b @ snd (osvRequest net pkg b))"
    using Suc.hyps(2) Suc.prems ab by (intro Suc.hyps(1)) simp_all
  ultimately show ?case
    by (simp add: backoff_effects_Cons[OF ab])
qed

lemma backoff_effects_values:
  "backoff_effects q (Suc 0) 5 = [Sent q, Slept 1000, Sent q, Slept 2000, Sent q, Slept 4000,
     Sent q, Slept 8000]"
  "backoff_effects q (Suc 0) 6 = [Sent q, Slept 1000, Sent q, Slept 2000, Sent q, Slept 4000,
     Sent q, Slept 8000, Sent q, Slept 16000]"
  by (simp_all add: backoff_effects_def INITIAL_DELAY_def upt_conv_Cons)

lemma requests_backoff: "requests (backoff_effects q a b @ es) = replicate (b - a) q @ requests es"
proof (induction "b - a" arbitrary: a)
  case 0
  then show ?case by (simp add: backoff_effects_Nil)
next
  case (Suc k)
  then have ab: "a < b" by simp
  have "b - a = Suc (b - Suc a)" using ab by simp
  moreover have "requests (backoff_effects q (Suc a) b @ es) = replicate (b - Suc a) q @ requests es"
    using Suc.hyps(2) by (intro Suc.hyps(1)) simp
  ultimately show ?case
    by (simp add: backoff_effects_Cons[OF ab])
qed

lemma all_transient_exhausts:
  assumes "\<forall>n. 1 \<le> n \<and> n \<le> 6 \<longrightarrow> transient_at net pkg n"
  shows "osvRequest net pkg 1 =
     ([], [Sent (osv_request pkg), Slept 1000, Sent (osv_request pkg), Slept 2000,
           Sent (osv_request pkg), Slept 4000, Sent (osv_request pkg), Slept 8000,
           Sent (osv_request pkg), Slept 16000, Sent (osv_request pkg)])"
proof -
  have "osvRequest net pkg 1 =
     (fst (osvRequest net pkg 6), backoff_effects (osv_request pkg) 1 6 @ snd (osvRequest net pkg 6))"
    using assms by (intro osvRequest_skip) (simp_all add: RETRY_LIMIT_def)
  moreover have "osvRequest net pkg 6 = ([], [Sent (osv_request pkg)])"
    using assms by (intro osvRequest_at_exhausted) (simp_all add: RETRY_LIMIT_def)
  ultimately show ?thesis
    by (simp add: backoff_effects_values)
qed

lemma four_failures_then_success:
  assumes "\<forall>n. 1 \<le> n \<and> n \<le> 4 \<longrightarrow> (\<exists>body. net n (osv_request pkg) = Response 500 body)"
    and "net 5 (osv_request pkg) = Response 200 (Some (Object (Some vs)))"
  shows "osvRequest net pkg 1 =
     (vs, [Sent (osv_request pkg), Slept 1000, Sent (osv_request pkg), Slept 2000,
           Sent (osv_request pkg), Slept 4000, Sent (osv_request pkg), Slept 8000,
           Sent (osv_request pkg)])"
proof -
  have tr: "\<forall>n. 1 \<le> n \<and> n < 5 \<longrightarrow> transient_at net pkg n"
  proof (intro allI impI)
    fix n :: nat
    assume "1 \<le> n \<and> n < 5"
    then obtain body where "net n (osv_request pkg) = Response 500 body"
      using assms(1) by fastforce
    then show "transient_at net pkg n"
      by (simp add: transient_at_def transient_status_def)
  qed
  have "osvRequest net pkg 1 =
     (fst (osvRequest net pkg 5), backoff_effects (osv_request pkg) 1 5 @ snd (osvRequest net pkg 5))"
    using tr by (intro osvRequest_skip) (simp_all add: RETRY_LIMIT_def)
  moreover have "httpsPost (net 5) OSV_PATH (osv_query pkg) = Inr (Object (Some vs))"
    using assms(2) by (simp add: httpsPost_def osv_request_def)
  then have "osvRequest net pkg 5 = (vs, [Sent (osv_request pkg)])"
    using osvRequest_resolved[of net 5 pkg "Some vs"] by (simp add: or_empty_def)
  ultimately show ?thesis
    by (simp add: backoff_effects_values)
qed

lemma permanent_failure_empty:
  assumes "1 \<le> b" "b \<le> 6" "\<forall>n. 1 \<le> n \<and> n < b \<longrightarrow> transient_at net pkg n"
    and "permanent_at net pkg b"
  shows "fst (osvRequest net pkg 1) = [] \<and> length (requests (snd (osvRequest net pkg 1))) = b"
proof -
  have "osvRequest net pkg 1 =
     (fst (osvRequest net pkg b), backoff_effects (osv_request pkg) 1 b @ snd (osvRequest net pkg b))"
    using assms(1,2,3) by (intro osvRequest_skip) (simp_all add: RETRY_LIMIT_def)
  moreover have "osvRequest net pkg b = ([], [Sent (osv_request pkg)])"
    using assms(4) by (rule osvRequest_at_permanent)
  ultimately show ?thesis
    using assms(1) by (simp add: requests_backoff)
qed

lemma sleeps_prefix:
  "\<exists>n \<le> 5. sleeps (snd (osvRequest net pkg 1)) = take n [1000, 2000, 4000, 8000, 16000] \<and>
     requests (snd (osvRequest net pkg 1)) = replicate (Suc n) (osv_request pkg)"
proof -
  obtain n where n: "1 + n \<le> Suc RETRY_LIMIT"
    "sleeps (snd (osvRequest net pkg 1)) = map (\<lambda>j. INITIAL_DELAY * 2 ^ (j - 1)) [1 ..< 1 + n]"
    "requests (snd (osvRequest net pkg 1)) = replicate (Suc n) (osv_request pkg)"
    using osvRequest_schedule[of 1 net pkg] by (auto simp: RETRY_LIMIT_def)
  then have "n \<le> 5" by (simp add: RETRY_LIMIT_def)
  then consider "n = 0" | "n = 1" | "n = 2" | "n = 3" | "n = 4" | "n = 5"
    by linarith
  then have "map (\<lambda>j. INITIAL_DELAY * 2 ^ (j - 1)) [1 ..< 1 + n] =
      take n [1000, 2000, 4000, 8000, 16000]"
    by cases (simp_all add: INITIAL_DELAY_def upt_conv_Cons)
  then show ?thesis
    using n \<open>n \<le> 5\<close> by auto
qed


text \<open>
  Claim C4. A response with status 429 or at least 500 is classified retryable, and
  \<open>osvRequest\<close> retries it after sleeping 1s, 2s, 4s, 8s, 16s on successive retries, up to
  the ceiling of 5 retries; a query that fails with status 500 four times and then returns
  200 yields the parsed payload after exactly 5 attempts; exhausting the ceiling, or any
  permanent failure (another status outside 200..299, an unparseable payload), makes
  \<open>osvRequest\<close> return the empty list. \<open>osvRequest\<close> is a total function: it always
  returns a list and never propagates an error.
\<close>

theorem osvRequest_retry_policy:
  "(transient_status st \<longrightarrow>
      httpsPost (\<lambda>r. Response st body) path d = Inl (StatusError st) \<and>
      retryable (StatusError st)) \<and>
   ((\<forall>n. 1 \<le> n \<and> n \<le> 6 \<longrightarrow> transient_at net pkg n) \<longrightarrow>
      osvRequest net pkg 1 =
        ([], [Sent (osv_request pkg), Slept 1000, Sent (osv_request pkg), Slept 2000,
              Sent (osv_request pkg), Slept 4000, Sent (osv_request pkg), Slept 8000,
              Sent (osv_request pkg), Slept 16000, Sent (osv_request pkg)])) \<and>
   ((\<forall>n. 1 \<le> n \<and> n \<le> 4 \<longrightarrow> (\<exists>b. net n (osv_request pkg) = Response 500 b)) \<and>
    net 5 (osv_request pkg) = Response 200 (Some (Object (Some vs))) \<longrightarrow>
      osvRequest net pkg 1 =
        (vs, [Sent (osv_request pkg), Slept 1000, Sent (osv_request pkg), Slept 2000,
              Sent (osv_request pkg), Slept 4000, Sent (osv_request pkg), Slept 8000,
              Sent (osv_request pkg)]) \<and>
      length (requests (snd (osvRequest net pkg 1))) = 5) \<and>
   (\<forall>k. 1 \<le> k \<and> k \<le> 6 \<and> (\<forall>n. 1 \<le> n \<and> n < k \<longrightarrow> transient_at net pkg n) \<and>
        permanent_at net pkg k \<longrightarrow>
      fst (osvRequest net pkg 1) = [] \<and> length (requests (snd (osvRequest net pkg 1))) = k) \<and>
   (\<exists>n \<le> 5. sleeps (snd (osvRequest net pkg 1)) = take n [1000, 2000, 4000, 8000, 16000] \<and>
      requests (snd (osvRequest net pkg 1)) = replicate (Suc n) (osv_request pkg))"
proof -
  have 1: "transient_status st \<longrightarrow>
      httpsPost (\<lambda>r. Response st body) path d = Inl (StatusError st) \<and>
      retryable (StatusError st)"
    by (simp add: httpsPost_transient)
  have 2: "(\<forall>n. 1 \<le> n \<and> n \<le> 6 \<longrightarrow> transient_at net pkg n) \<longrightarrow>
      osvRequest net pkg 1 =
        ([], [Sent (osv_request pkg), Slept 1000, Sent (osv_request pkg), Slept 2000,
              Sent (osv_request pkg), Slept 4000, Sent (osv_request pkg), Slept 8000,
              Sent (osv_request pkg), Slept 16000, Sent (osv_request pkg)])"
    using all_transient_exhausts[of net pkg] by blast
  have 3: "(\<forall>n. 1 \<le> n \<and> n \<le> 4 \<longrightarrow> (\<exists>b. net n (osv_request pkg) = Response 500 b)) \<and>
    net 5 (osv_request pkg) = Response 200 (Some (Object (Some vs))) \<longrightarrow>
      osvRequest net pkg 1 =
        (vs, [Sent (osv_request pkg), Slept 1000, Sent (osv_request pkg), Slept 2000,
              Sent (osv_request pkg), Slept 4000, Sent (osv_request pkg), Slept 8000,
              Sent (osv_request pkg)]) \<and>
      length (requests (snd (osvRequest net pkg 1))) = 5"
  proof (intro impI)
    assume a: "(\<forall>n. 1 \<le> n \<and> n \<le> 4 \<longrightarrow> (\<exists>b. net n (osv_request pkg) = Response 500 b)) \<and>
      net 5 (osv_request pkg) = Response 200 (Some (Object (Some vs)))"
    then have "osvRequest net pkg 1 =
        (vs, [Sent (osv_request pkg), Slept 1000, Sent (osv_request pkg), Slept 2000,
              Sent (osv_request pkg), Slept 4000, Sent (osv_request pkg), Slept 8000,
              Sent (osv_request pkg)])"
      by (intro four_failures_then_success) blast+
    then show "osvRequest net pkg 1 =
        (vs, [Sent (osv_request pkg), Slept 1000, Sent (osv_request pkg), Slept 2000,
              Sent (osv_request pkg), Slept 4000, Sent (osv_request pkg), Slept 8000,
              Sent (osv_request pkg)]) \<and>
      length (requests (snd (osvRequest net pkg 1))) = 5"
      by simp
  qed
  have 4: "\<forall>k. 1 \<le> k \<and> k \<le> 6 \<and> (\<forall>n. 1 \<le> n \<and> n < k \<longrightarrow> transient_at net pkg n) \<and>
        permanent_at net pkg k \<longrightarrow>
      fst (osvRequest net pkg 1) = [] \<and> length (requests (snd (osvRequest net pkg 1))) = k"
    using permanent_failure_empty[of _ net pkg] by blast
  have 5: "\<exists>n \<le> 5. sleeps (snd (osvRequest net pkg 1)) = take n [1000, 2000, 4000, 8000, 16000] \<and>
      requests (snd (osvRequest net pkg 1)) = replicate (Suc n) (osv_request pkg)"
    by (rule sleeps_prefix)
  show ?thesis
    using 1 2 3 4 5 by blast
qed

theorem osvRequest_retry_policy_witness:
  "osvRequest always_503 example_pkg 1 =
     ([], [Sent (osv_request example_pkg), Slept 1000, Sent (osv_request example_pkg), Slept 2000,
           Sent (osv_request example_pkg), Slept 4000, Sent (osv_request example_pkg), Slept 8000,
           Sent (osv_request example_pkg), Slept 16000, Sent (osv_request example_pkg)]) \<and>
   fst (osvRequest four_500_then_200 example_pkg 1) = [example_vuln] \<and>
   length (requests (snd (osvRequest four_500_then_200 example_pkg 1))) = 5 \<and>
   fst (osvRequest two_429_then_404 example_pkg 1) = [] \<and>
   length (requests (snd (osvRequest two_429_then_404 example_pkg 1))) = 3 \<and>
   httpsPost (\<lambda>r. Response 429 None) OSV_PATH (osv_query example_pkg) = Inl (StatusError 429)"
proof -
  have a: "\<forall>n. 1 \<le> n \<and> n \<le> 6 \<longrightarrow> transient_at always_503 example_pkg n"
    by (simp add: transient_at_def transient_status_def always_503_def)
  have b: "(\<forall>n. 1 \<le> n \<and> n \<le> 4 \<longrightarrow>
        (\<exists>b. four_500_then_200 n (osv_request example_pkg) = Response 500 b)) \<and>
      four_500_then_200 5 (osv_request example_pkg) =
        Response 200 (Some (Object (Some [example_vuln])))"
    by (simp add: four_500_then_200_def)
  have c: "1 \<le> (3::nat) \<and> (3::nat) \<le> 6 \<and>
      (\<forall>n. 1 \<le> n \<and> n < 3 \<longrightarrow> transient_at two_429_then_404 example_pkg n) \<and>
      permanent_at two_429_then_404 example_pkg 3"
    by (simp add: transient_at_def permanent_at_def transient_status_def two_429_then_404_def)
  have d: "transient_status 429"
    by (simp add: transient_status_def)
  have 1: "osvRequest always_503 example_pkg 1 =
     ([], [Sent (osv_request example_pkg), Slept 1000, Sent (osv_request example_pkg), Slept 2000,
           Sent (osv_request example_pkg), Slept 4000, Sent (osv_request example_pkg), Slept 8000,
           Sent (osv_request example_pkg), Slept 16000, Sent (osv_request example_pkg)])"
    using a osvRequest_retry_policy[of 429 None OSV_PATH "osv_query example_pkg"
        always_503 example_pkg "[]"]
    by blast
  have 2: "fst (osvRequest four_500_then_200 example_pkg 1) = [example_vuln] \<and>
      length (requests (snd (osvRequest four_500_then_200 example_pkg 1))) = 5"
    using b osvRequest_retry_policy[of 429 None OSV_PATH "osv_query example_pkg"
        four_500_then_200 example_pkg "[example_vuln]"]
    by simp
  have 3: "fst (osvRequest two_429_then_404 example_pkg 1) = [] \<and>
      length (requests (snd (osvRequest two_429_then_404 example_pkg 1))) = 3"
    using c osvRequest_retry_policy[of 429 None OSV_PATH "osv_query example_pkg"
        two_429_then_404 example_pkg "[]"]
    by blast
  have 4: "httpsPost (\<lambda>r. Response 429 None) OSV_PATH (osv_query example_pkg) =
      Inl (StatusError 429)"
    using d osvRequest_retry_policy[of 429 None OSV_PATH "osv_query example_pkg"
        always_503 example_pkg "[]"]
    by blast
  show ?thesis
    using 1 2 3 4 by blast
qed

section \<open>Properties of the worker pool\<close>

lemma dequeued_append: "dequeued (xs @ ys) = dequeued xs @ dequeued ys"
  by (induction xs rule: dequeued.induct) simp_all

lemma resumed_append: "resumed (xs @ ys) = resumed xs @ resumed ys"
  by (induction xs rule: resumed.induct) simp_all

lemma lane_items_update:
  "i < length ls \<Longrightarrow>
   mset (concat (map lane_items (ls[i := l]))) + mset (lane_items (ls ! i)) =
   mset (concat (map lane_items ls)) + mset (lane_items l)"
proof (induction ls arbitrary: i)
  case Nil
  then show ?case by simp
next
  case (Cons x ls)
  then show ?case by (cases i) simp_all
qed

lemma mset_balance:
  fixes A B D E R :: "'a multiset"
  assumes "B + D = A + E" and "R + A = D"
  shows "R + B = E"
proof -
  have "(R + B) + D = R + (A + E)"
    using assms(1) by (simp add: add.assoc)
  also have "\<dots> = E + D"
    using assms(2) by (simp add: add.assoc[symmetric] add.commute)
  finally show ?thesis
    by simp
qed

lemma process_vulns_frame:
  "queue (process_vulns pkg vulns st) = queue st"
  "lanes (process_vulns pkg vulns st) = lanes st"
  "trace (process_vulns pkg vulns st) = trace st"
  by (simp_all add: process_vulns_def Let_def split: prod.splits)

lemma enter_length: "length (lanes (worker_enter i st)) = length (lanes st)"
  by (simp add: worker_enter_def split: list.splits)

lemma enter_positions:
  "dequeued (trace (worker_enter i st)) @ queue (worker_enter i st) =
   dequeued (trace st) @ queue st"
  by (simp add: worker_enter_def dequeued_append split: list.splits)

lemma enter_resumed: "resumed (trace (worker_enter i st)) = resumed (trace st)"
  by (simp add: worker_enter_def resumed_append split: list.splits)

lemma enter_in_flight:
  assumes "i < length (lanes st)"
  shows "mset (in_flight (worker_enter i st)) + mset (lane_items (lanes st ! i)) +
      mset (dequeued (trace st)) =
    mset (in_flight st) + mset (dequeued (trace (worker_enter i st)))"
proof (cases "queue st")
  case Nil
  then show ?thesis
    using lane_items_update[OF assms, of Finished]
    by (simp add: worker_enter_def in_flight_def)
next
  case (Cons pkg rest)
  then show ?thesis
    using lane_items_update[OF assms, of "Awaiting pkg"]
    by (simp add: worker_enter_def in_flight_def dequeued_append)
qed

lemma enter_finished:
  assumes "Finished \<in> set (lanes st) \<longrightarrow> queue st = []"
  shows "Finished \<in> set (lanes (worker_enter i st)) \<longrightarrow> queue (worker_enter i st) = []"
proof (cases "queue st")
  case Nil
  then show ?thesis by (simp add: worker_enter_def)
next
  case (Cons pkg rest)
  then have "Finished \<notin> set (lanes st)" using assms by auto
  then have "Finished \<notin> set ((lanes st)[i := Awaiting pkg])"
    using set_update_subset_insert[of "lanes st" i "Awaiting pkg"] by auto
  then show ?thesis using Cons by (simp add: worker_enter_def)
qed

lemma enter_inv:
  assumes "pool_inv packages st" "i < length (lanes st)" "lane_items (lanes st ! i) = []"
  shows "pool_inv packages (worker_enter i st)"
proof -
  have "mset (in_flight (worker_enter i st)) + mset (dequeued (trace st)) =
      mset (in_flight st) + mset (dequeued (trace (worker_enter i st)))"
    using enter_in_flight[OF assms(2)] assms(3) by simp
  moreover have "mset (resumed (trace st)) + mset (in_flight st) = mset (dequeued (trace st))"
    using assms(1) by (simp add: pool_inv_def)
  ultimately have "mset (resumed (trace st)) + mset (in_flight (worker_enter i st)) =
      mset (dequeued (trace (worker_enter i st)))"
    by (rule mset_balance)
  then show ?thesis
    using assms(1) enter_positions[of i st] enter_resumed[of i st] enter_finished[of st i]
    by (simp add: pool_inv_def)
qed

lemma resume_inv:
  assumes "pool_inv packages st"
  shows "pool_inv packages (worker_resume i net st)"
proof (cases "index (lanes st) i")
  case None
  then show ?thesis using assms by (simp add: worker_resume_def)
next
  case (Some l)
  then have i: "i < length (lanes st)" and l: "lanes st ! i = l"
    by (simp_all add: index_def split: if_splits)
  show ?thesis
  proof (cases l)
    case NotStarted
    then show ?thesis using assms Some by (simp add: worker_resume_def)
  next
    case Finished
    then show ?thesis using assms Some by (simp add: worker_resume_def)
  next
    case (Awaiting pkg)
    obtain vulns effects where r: "osvRequest net pkg 1 = (vulns, effects)"
      by (cases "osvRequest net pkg 1")
    define st1 where "st1 = process_vulns pkg vulns (st\<lparr>trace := trace st @ [Resumed i pkg vulns effects]\<rparr>)"
    have res: "worker_resume i net st = worker_enter i st1"
      using Some Awaiting r by (simp add: worker_resume_def st1_def)
    have f: "queue st1 = queue st" "lanes st1 = lanes st"
      "trace st1 = trace st @ [Resumed i pkg vulns effects]"
      by (simp_all add: st1_def process_vulns_frame)
    have inf: "in_flight st1 = in_flight st"
      by (simp add: in_flight_def f)
    have 1: "dequeued (trace (worker_enter i st1)) @ queue (worker_enter i st1) = packages"
      using assms enter_positions[of i st1] by (simp add: pool_inv_def f dequeued_append)
    have "mset (in_flight (worker_enter i st1)) + mset (lane_items (lanes st1 ! i)) +
        mset (dequeued (trace st1)) =
      mset (in_flight st1) + mset (dequeued (trace (worker_enter i st1)))"
      using i by (intro enter_in_flight) (simp add: f)
    then have "add_mset pkg (mset (in_flight (worker_enter i st1))) + mset (dequeued (trace st)) =
        mset (in_flight st) + mset (dequeued (trace (worker_enter i st1)))"
      using l Awaiting by (simp add: f inf dequeued_append)
    moreover have "mset (resumed (trace st)) + mset (in_flight st) = mset (dequeued (trace st))"
      using assms by (simp add: pool_inv_def)
    ultimately have "mset (resumed (trace st)) + add_mset pkg (mset (in_flight (worker_enter i st1))) =
        mset (dequeued (trace (worker_enter i st1)))"
      by (rule mset_balance)
    then have 2: "mset (resumed (trace (worker_enter i st1))) + mset (in_flight (worker_enter i st1)) =
        mset (dequeued (trace (worker_enter i st1)))"
      by (simp add: f enter_resumed resumed_append)
    have 3: "Finished \<in> set (lanes (worker_enter i st1)) \<longrightarrow> queue (worker_enter i st1) = []"
      using assms by (intro enter_finished) (simp add: pool_inv_def f)
    show ?thesis
      unfolding res pool_inv_def using 1 2 3 by blast
  qed
qed

lemma run_inv: "pool_inv packages st \<Longrightarrow> pool_inv packages (run schedule st)"
  unfolding run_def
  by (induction schedule arbitrary: st) (auto simp: resume_inv)

lemma resume_length: "length (lanes (worker_resume i net st)) = length (lanes st)"
  by (simp add: worker_resume_def enter_length process_vulns_frame
      split: option.splits lane.splits prod.splits)

lemma run_length: "length (lanes (run schedule st)) = length (lanes st)"
  unfolding run_def
  by (induction schedule arbitrary: st) (auto simp: resume_length)

lemma enter_other_lane: "j \<noteq> i \<Longrightarrow> lanes (worker_enter i st) ! j = lanes st ! j"
  by (simp add: worker_enter_def split: list.splits)

lemma start_inv_upto:
  "k \<le> n \<Longrightarrow>
   pool_inv packages (fold worker_enter [0 ..< k]
     \<lparr>queue = packages, allVulns = [], perPackageCounts = [],
      lanes = replicate n NotStarted, trace = []\<rparr>) \<and>
   length (lanes (fold worker_enter [0 ..< k]
     \<lparr>queue = packages, allVulns = [], perPackageCounts = [],
      lanes = replicate n NotStarted, trace = []\<rparr>)) = n \<and>
   (\<forall>j. k \<le> j \<and> j < n \<longrightarrow> lanes (fold worker_enter [0 ..< k]
     \<lparr>queue = packages, allVulns = [], perPackageCounts = [],
      lanes = replicate n NotStarted, trace = []\<rparr>) ! j = NotStarted)"
proof (induction k)
  case 0
  then show ?case by (simp add: pool_inv_def in_flight_def)
next
  case (Suc k)
  define st where "st = fold worker_enter [0 ..< k]
     \<lparr>queue = packages, allVulns = [], perPackageCounts = [],
      lanes = replicate n NotStarted, trace = []\<rparr>"
  have ih: "pool_inv packages st" "length (lanes st) = n"
    "\<forall>j. k \<le> j \<and> j < n \<longrightarrow> lanes st ! j = NotStarted"
    using Suc by (simp_all add: st_def)
  have step: "fold worker_enter [0 ..< Suc k]
     \<lparr>queue = packages, allVulns = [], perPackageCounts = [],
      lanes = replicate n NotStarted, trace = []\<rparr> = worker_enter k st"
    by (simp add: st_def)
  have "pool_inv packages (worker_enter k st)"
    using ih Suc.prems by (intro enter_inv) simp_all
  moreover have "length (lanes (worker_enter k st)) = n"
    using ih by (simp add: enter_length)
  moreover have "\<forall>j. Suc k \<le> j \<and> j < n \<longrightarrow> lanes (worker_enter k st) ! j = NotStarted"
    using ih by (simp add: enter_other_lane)
  ultimately show ?case
    unfolding step by blast
qed

lemma main_inv: "pool_inv packages (main n packages schedule)"
  unfolding main_def main_start_def
  using start_inv_upto[of n n packages] by (intro run_inv) simp

lemma main_length: "length (lanes (main n packages schedule)) = n"
  unfolding main_def main_start_def
  using start_inv_upto[of n n packages] by (simp add: run_length)

lemma completed_no_in_flight: "completed st \<Longrightarrow> in_flight st = []"
proof -
  assume "completed st"
  then have "\<forall>l \<in> set (lanes st). lane_items l = []"
    by (auto simp: completed_def list_all_iff)
  then show ?thesis
    by (simp add: in_flight_def)
qed

lemma handled_at_completion:
  assumes "1 \<le> n" and "completed (main n packages schedule)"
  shows "queue (main n packages schedule) = []"
    and "dequeued (trace (main n packages schedule)) = packages"
    and "mset (resumed (trace (main n packages schedule))) = mset packages"
proof -
  define st where "st = main n packages schedule"
  have inv: "pool_inv packages st"
    by (simp add: st_def main_inv)
  have "length (lanes st) = n"
    by (simp add: st_def main_length)
  then have "lanes st \<noteq> []" using assms(1) by auto
  then obtain l where "l \<in> set (lanes st)" by (cases "lanes st") auto
  then have "Finished \<in> set (lanes st)"
    using assms(2) by (auto simp: completed_def list_all_iff st_def)
  then have q: "queue st = []" using inv by (simp add: pool_inv_def)
  then have d: "dequeued (trace st) = packages" using inv by (simp add: pool_inv_def)
  have "in_flight st = []"
    using assms(2) by (simp add: completed_no_in_flight st_def)
  then have "mset (resumed (trace st)) = mset (dequeued (trace st))"
    using inv by (simp add: pool_inv_def)
  then show "queue (main n packages schedule) = []"
    and "dequeued (trace (main n packages schedule)) = packages"
    and "mset (resumed (trace (main n packages schedule))) = mset packages"
    using q d by (simp_all add: st_def)
qed

text \<open>Every run can be completed: the schedule that drains the lanes one after the
  other leaves every lane finished.\<close>

lemma run_Nil: "run [] st = st"
  by (simp add: run_def)

lemma run_Cons: "run ((i, net) # schedule) st = run schedule (worker_resume i net st)"
  by (simp add: run_def)

lemma run_append: "run (xs @ ys) st = run ys (run xs st)"
  by (simp add: run_def)

lemma resume_other_lane: "j \<noteq> i \<Longrightarrow> lanes (worker_resume i net st) ! j = lanes st ! j"
  by (simp add: worker_resume_def enter_other_lane process_vulns_frame
      split: option.splits lane.splits prod.splits)

lemma enter_queue: "queue (worker_enter i st) = tl (queue st)"
  by (simp add: worker_enter_def split: list.splits)

lemma enter_this_lane:
  "i < length (lanes st) \<Longrightarrow>
   lanes (worker_enter i st) ! i = (case queue st of [] \<Rightarrow> Finished | pkg # rest \<Rightarrow> Awaiting pkg)"
  by (simp add: worker_enter_def split: list.splits)

lemma resume_awaiting:
  assumes "i < length (lanes st)" and "lanes st ! i = Awaiting p"
  shows "lanes (worker_resume i net st) ! i =
      (case queue st of [] \<Rightarrow> Finished | pkg # rest \<Rightarrow> Awaiting pkg)"
    and "queue (worker_resume i net st) = tl (queue st)"
  using assms
  by (simp_all add: worker_resume_def index_def enter_this_lane enter_queue process_vulns_frame
      split: prod.splits)

lemma resume_finished:
  "i < length (lanes st) \<Longrightarrow> lanes st ! i = Finished \<Longrightarrow> worker_resume i net st = st"
  by (simp add: worker_resume_def index_def)

lemma resume_keeps_finished:
  assumes "j < length (lanes st)" and "lanes st ! j = Finished"
  shows "lanes (worker_resume i net st) ! j = Finished"
proof (cases "j = i")
  case True
  then show ?thesis using assms by (simp add: resume_finished)
next
  case False
  then show ?thesis using assms by (simp add: resume_other_lane)
qed

lemma run_keeps_finished:
  "j < length (lanes st) \<Longrightarrow> lanes st ! j = Finished \<Longrightarrow> lanes (run schedule st) ! j = Finished"
proof (induction schedule arbitrary: st)
  case Nil
  then show ?case by (simp add: run_Nil)
next
  case (Cons a schedule)
  obtain i net where a: "a = (i, net)" by (cases a)
  show ?case
    unfolding a run_Cons
    using Cons.prems by (intro Cons.IH) (simp_all add: resume_length resume_keeps_finished)
qed

lemma resume_started:
  assumes "j < length (lanes st)" and "lanes st ! j \<noteq> NotStarted"
  shows "lanes (worker_resume i net st) ! j \<noteq> NotStarted"
proof (cases "j = i")
  case False
  then show ?thesis using assms by (simp add: resume_other_lane)
next
  case True
  show ?thesis
  proof (cases "lanes st ! i")
    case NotStarted
    then show ?thesis using assms True by simp
  next
    case (Awaiting p)
    then show ?thesis
      using assms(1) True resume_awaiting(1)[of i st p net] by (simp split: list.splits)
  next
    case Finished
    then show ?thesis using assms(1) True by (simp add: resume_finished)
  qed
qed

lemma resume_queue_length: "length (queue (worker_resume i net st)) \<le> length (queue st)"
  by (simp add: worker_resume_def enter_queue process_vulns_frame
      split: option.splits lane.splits prod.splits)

text \<open>A started lane that resumes more often than the queue is long ends up finished.\<close>

lemma block_finishes_lane:
  "i < length (lanes st) \<Longrightarrow> lanes st ! i \<noteq> NotStarted \<Longrightarrow> length (queue st) < m \<Longrightarrow>
   lanes (run (replicate m (i, net)) st) ! i = Finished"
proof (induction m arbitrary: st)
  case 0
  then show ?case by simp
next
  case (Suc m)
  have step: "run (replicate (Suc m) (i, net)) st = run (replicate m (i, net)) (worker_resume i net st)"
    by (simp add: run_Cons)
  show ?case
  proof (cases "lanes st ! i")
    case NotStarted
    then show ?thesis using Suc.prems by simp
  next
    case Finished
    then show ?thesis
      using Suc.prems(1) by (simp add: run_keeps_finished)
  next
    case (Awaiting p)
    show ?thesis
    proof (cases "queue st")
      case Nil
      then have "lanes (worker_resume i net st) ! i = Finished"
        using resume_awaiting(1)[OF Suc.prems(1) Awaiting, of net] by simp
      then show ?thesis
        unfolding step using Suc.prems(1) by (intro run_keeps_finished) (simp_all add: resume_length)
    next
      case (Cons q rest)
      then have "lanes (worker_resume i net st) ! i = Awaiting q"
        and "queue (worker_resume i net st) = rest"
        using resume_awaiting[OF Suc.prems(1) Awaiting, of net] by simp_all
      then show ?thesis
        unfolding step using Suc.prems Cons by (intro Suc.IH) (simp_all add: resume_length)
    qed
  qed
qed

lemma run_started:
  "j < length (lanes st) \<Longrightarrow> lanes st ! j \<noteq> NotStarted \<Longrightarrow> lanes (run schedule st) ! j \<noteq> NotStarted"
proof (induction schedule arbitrary: st)
  case Nil
  then show ?case by (simp add: run_Nil)
next
  case (Cons a schedule)
  obtain i net where a: "a = (i, net)" by (cases a)
  show ?case
    unfolding a run_Cons
    using Cons.prems by (intro Cons.IH) (simp_all add: resume_length resume_started)
qed

lemma run_queue_length: "length (queue (run schedule st)) \<le> length (queue st)"
proof (induction schedule arbitrary: st)
  case Nil
  then show ?case by (simp add: run_Nil)
next
  case (Cons a schedule)
  obtain i net where a: "a = (i, net)" by (cases a)
  show ?case
    unfolding a run_Cons
    using Cons.IH[of "worker_resume i net st"] resume_queue_length[of i net st] by linarith
qed

lemma drain_schedule_Suc:
  "drain_schedule (Suc k) m net = drain_schedule k m net @ replicate m (k, net)"
  by (simp add: drain_schedule_def)

lemma drain_finishes_lanes:
  assumes "\<forall>j < length (lanes st). lanes st ! j \<noteq> NotStarted" and "length (queue st) < m"
  shows "k \<le> length (lanes st) \<Longrightarrow>
    (\<forall>j < k. lanes (run (drain_schedule k m net) st) ! j = Finished)"
proof (induction k)
  case 0
  then show ?case by simp
next
  case (Suc k)
  define st1 where "st1 = run (drain_schedule k m net) st"
  have len: "length (lanes st1) = length (lanes st)"
    by (simp add: st1_def run_length)
  have ih: "\<forall>j < k. lanes st1 ! j = Finished"
    using Suc by (simp add: st1_def)
  have started: "lanes st1 ! k \<noteq> NotStarted"
    unfolding st1_def using assms(1) Suc.prems by (intro run_started) simp_all
  have q: "length (queue st1) < m"
    using run_queue_length[of "drain_schedule k m net" st] assms(2) by (simp add: st1_def)
  have fin: "lanes (run (replicate m (k, net)) st1) ! k = Finished"
    using Suc.prems started q by (intro block_finishes_lane) (simp_all add: len)
  have "lanes (run (replicate m (k, net)) st1) ! j = Finished" if "j < Suc k" for j
  proof (cases "j = k")
    case True
    then show ?thesis using fin by simp
  next
    case False
    then have "j < k" using that by simp
    then show ?thesis
      using ih Suc.prems by (intro run_keeps_finished) (simp_all add: len)
  qed
  then show ?case
    by (simp add: drain_schedule_Suc run_append st1_def)
qed

lemma fold_enter_length: "length (lanes (fold worker_enter is st)) = length (lanes st)"
  by (induction "is" arbitrary: st) (simp_all add: enter_length)

lemma fold_enter_queue_length: "length (queue (fold worker_enter is st)) \<le> length (queue st)"
proof (induction "is" arbitrary: st)
  case Nil
  then show ?case by simp
next
  case (Cons i "is")
  have "length (queue (worker_enter i st)) \<le> length (queue st)"
    by (simp add: enter_queue)
  then show ?case
    using Cons.IH[of "worker_enter i st"] by simp
qed

lemma enter_started:
  assumes "j < length (lanes st)" and "j = i \<or> lanes st ! j \<noteq> NotStarted"
  shows "lanes (worker_enter i st) ! j \<noteq> NotStarted"
proof (cases "j = i")
  case True
  then show ?thesis using assms(1) by (simp add: enter_this_lane split: list.splits)
next
  case False
  then show ?thesis using assms(2) by (simp add: enter_other_lane)
qed

lemma start_started_upto:
  "k \<le> length (lanes st) \<Longrightarrow>
   (\<forall>j < k. lanes (fold worker_enter [0 ..< k] st) ! j \<noteq> NotStarted)"
proof (induction k)
  case 0
  then show ?case by simp
next
  case (Suc k)
  define st1 where "st1 = fold worker_enter [0 ..< k] st"
  have len: "length (lanes st1) = length (lanes st)"
    by (simp add: st1_def fold_enter_length)
  have ih: "\<forall>j < k. lanes st1 ! j \<noteq> NotStarted"
    using Suc by (simp add: st1_def)
  have "lanes (worker_enter k st1) ! j \<noteq> NotStarted" if "j < Suc k" for j
    using that ih Suc.prems by (intro enter_started) (auto simp: len)
  then show ?case
    by (simp add: st1_def)
qed

lemma some_schedule_completes:
  "completed (main n packages (drain_schedule n (Suc (length packages)) net))"
proof -
  define st where "st = main_start n packages"
  have len: "length (lanes st) = n"
    by (simp add: st_def main_start_def fold_enter_length)
  have started: "\<forall>j < length (lanes st). lanes st ! j \<noteq> NotStarted"
    unfolding len unfolding st_def main_start_def
    by (rule start_started_upto) simp
  have "length (queue st) \<le> length packages"
    unfolding st_def main_start_def
    using fold_enter_queue_length[of "[0 ..< n]"
        "\<lparr>queue = packages, allVulns = [], perPackageCounts = [],
          lanes = replicate n NotStarted, trace = []\<rparr>"]
    by simp
  then have q: "length (queue st) < Suc (length packages)"
    by simp
  have fin: "\<forall>j < n. lanes (run (drain_schedule n (Suc (length packages)) net) st) ! j = Finished"
    using drain_finishes_lanes[OF started q, of n net] len by simp
  have "length (lanes (run (drain_schedule n (Suc (length packages)) net) st)) = n"
    by (simp add: run_length len)
  then show ?thesis
    using fin unfolding main_def st_def[symmetric] completed_def list_all_length by simp
qed

text \<open>The example run completes; in it lane 0 handles the first item with one
  vulnerability.\<close>

lemma example_run_completed: "completed (main 2 example_packages example_schedule)"
  by code_simp

lemma example_run_step:
  "Resumed 0 \<lparr>component = ''pkg:npm/a'', forkPoint = ''1.0.0''\<rparr> [example_vuln]
      [Sent (osv_request \<lparr>component = ''pkg:npm/a'', forkPoint = ''1.0.0''\<rparr>)]
    \<in> set (trace (main 2 example_packages example_schedule))"
  by code_simp

text \<open>
  Claim C5. For every queue of work items and every number of lanes, the items dequeued so
  far, in the order of the trace, followed by the queue are the initial queue: every dequeue
  takes the next position of the queue, so no position is dequeued twice and no two lanes
  dequeue the same item. With at least one lane, once all lanes have left their loops the
  queue is empty, the dequeued items are the initial queue, and the items whose results were
  handled are the initial queue up to order: each item is processed exactly once. Every
  queue and number of lanes has a schedule on which all lanes leave their loops.
\<close>

theorem each_item_once:
  "dequeued (trace (main n packages schedule)) @ queue (main n packages schedule) = packages \<and>
   (1 \<le> n \<and> completed (main n packages schedule) \<longrightarrow>
      queue (main n packages schedule) = [] \<and>
      dequeued (trace (main n packages schedule)) = packages \<and>
      mset (resumed (trace (main n packages schedule))) = mset packages) \<and>
   (\<exists>schedule1. completed (main n packages schedule1))"
proof -
  have "pool_inv packages (main n packages schedule)"
    by (rule main_inv)
  then have "dequeued (trace (main n packages schedule)) @ queue (main n packages schedule) =
      packages"
    by (simp add: pool_inv_def)
  moreover have "\<exists>schedule1. completed (main n packages schedule1)"
    using some_schedule_completes[of n packages "answers []"] by blast
  ultimately show ?thesis
    using handled_at_completion[of n packages schedule] by blast
qed

theorem each_item_once_witness:
  "completed (main 2 example_packages example_schedule) \<and>
   queue (main 2 example_packages example_schedule) = [] \<and>
   dequeued (trace (main 2 example_packages example_schedule)) = example_packages \<and>
   mset (resumed (trace (main 2 example_packages example_schedule))) = mset example_packages"
proof -
  have c: "completed (main 2 example_packages example_schedule)"
    by (rule example_run_completed)
  show ?thesis
    using c each_item_once[of 2 example_packages example_schedule] by simp
qed

section \<open>Properties of the aggregator\<close>

lemma map_of_Map_set: "map_of (Map_set k v m) j = (if j = k then Some v else map_of m j)"
  by (induction m) auto

lemma Map_get_set: "Map_get (Map_set k v m) j = (if j = k then Some v else Map_get m j)"
  by (simp add: Map_get_def map_of_Map_set)

lemma Map_has_set: "Map_has (Map_set k v m) j = (j = k \<or> Map_has m j)"
  by (simp add: Map_has_def map_of_Map_set)

lemma set_set_add: "set (set_add x s) = insert x (set s)"
  by (auto simp: set_add_def)

lemma distinct_set_add: "distinct s \<Longrightarrow> distinct (set_add x s)"
  by (simp add: set_add_def)

lemma set_fold_set_add: "set (fold set_add xs s) = set s \<union> set xs"
  by (induction xs arbitrary: s) (auto simp: set_set_add)

lemma distinct_fold_set_add: "distinct s \<Longrightarrow> distinct (fold set_add xs s)"
  by (induction xs arbitrary: s) (auto simp: distinct_set_add)

lemma set_new_Set: "set (new_Set xs) = set xs"
  by (simp add: new_Set_def set_fold_set_add)

lemma distinct_new_Set: "distinct (new_Set xs)"
  by (simp add: new_Set_def distinct_fold_set_add)

lemma new_Set_Cons: "new_Set (x # xs) = fold set_add xs [x]"
  by (simp add: new_Set_def set_add_def)

lemma Map_has_get: "Map_has m k = (Map_get m k \<noteq> None)"
  by (simp add: Map_has_def Map_get_def)

lemma record_vuln_other: "id' v \<noteq> k \<Longrightarrow> Map_get (record_vuln c v m) k = Map_get m k"
  by (simp add: record_vuln_def Let_def Map_get_set split: option.splits)

lemma record_vuln_new:
  "Map_get m (id' v) = None \<Longrightarrow> Map_get (record_vuln c v m) (id' v) = Some (fresh_record c v)"
  by (simp add: record_vuln_def Let_def Map_get_set Map_has_get fresh_record_def)

lemma record_vuln_known:
  "Map_get m (id' v) = Some ex \<Longrightarrow>
   Map_get (record_vuln c v m) (id' v) = Some (merge_report (c, v) ex)"
  by (simp add: record_vuln_def Let_def Map_get_set Map_has_get merge_report_def set_add_def)

lemma record_all_known:
  "Map_get m k = Some ex \<Longrightarrow>
   Map_get (record_all reports m) k =
     Some (fold merge_report (filter (\<lambda>rep. id' (snd rep) = k) reports) ex)"
proof (induction reports arbitrary: m ex)
  case Nil
  then show ?case by (simp add: record_all_def)
next
  case (Cons rep reports)
  obtain c v where rep: "rep = (c, v)" by (cases rep)
  have step: "record_all ((c, v) # reports) m = record_all reports (record_vuln c v m)"
    by (simp add: record_all_def)
  show ?case
  proof (cases "id' v = k")
    case True
    then have "Map_get (record_vuln c v m) k = Some (merge_report (c, v) ex)"
      using Cons.prems record_vuln_known[of m v ex c] by simp
    then show ?thesis
      using True by (simp add: rep step Cons.IH)
  next
    case False
    then have "Map_get (record_vuln c v m) k = Some ex"
      using Cons.prems by (simp add: record_vuln_other)
    then show ?thesis
      using False by (simp add: rep step Cons.IH)
  qed
qed

lemma record_all_fresh:
  "Map_get m k = None \<Longrightarrow> filter (\<lambda>rep. id' (snd rep) = k) reports = rep0 # rs \<Longrightarrow>
   Map_get (record_all reports m) k =
     Some (fold merge_report rs (fresh_record (fst rep0) (snd rep0)))"
proof (induction reports arbitrary: m)
  case Nil
  then show ?case by simp
next
  case (Cons rep reports)
  obtain c v where rep: "rep = (c, v)" by (cases rep)
  have step: "record_all ((c, v) # reports) m = record_all reports (record_vuln c v m)"
    by (simp add: record_all_def)
  show ?case
  proof (cases "id' v = k")
    case True
    then have r0: "rep0 = (c, v)" and rs: "filter (\<lambda>rep. id' (snd rep) = k) reports = rs"
      using Cons.prems(2) by (simp_all add: rep)
    have "Map_get (record_vuln c v m) k = Some (fresh_record c v)"
      using True Cons.prems(1) record_vuln_new[of m v c] by simp
    then show ?thesis
      by (simp add: rep step record_all_known rs r0)
  next
    case False
    then have "Map_get (record_vuln c v m) k = None"
      using Cons.prems(1) by (simp add: record_vuln_other)
    moreover have "filter (\<lambda>rep. id' (snd rep) = k) reports = rep0 # rs"
      using False Cons.prems(2) by (simp add: rep)
    ultimately show ?thesis
      by (simp add: rep step Cons.IH)
  qed
qed

lemma fold_merge_components:
  "affectedComponents (fold merge_report rs ex) = fold set_add (map fst rs) (affectedComponents ex)"
  by (induction rs arbitrary: ex) (simp_all add: merge_report_def)

lemma fold_merge_fixes_set:
  "set (fixedVersions (fold merge_report rs ex)) =
     set (fixedVersions ex) \<union> (\<Union>rep \<in> set rs. set (extractFixes (snd rep)))"
  by (induction rs arbitrary: ex) (auto simp: merge_report_def set_new_Set)

lemma fold_merge_fixes_distinct:
  "distinct (fixedVersions ex) \<Longrightarrow> distinct (fixedVersions (fold merge_report rs ex))"
  by (induction rs arbitrary: ex) (simp_all add: merge_report_def distinct_new_Set)

lemma fold_merge_frame:
  "record_id (fold merge_report rs ex) = record_id ex"
  "record_summary (fold merge_report rs ex) = record_summary ex"
  "record_details (fold merge_report rs ex) = record_details ex"
  "record_severity (fold merge_report rs ex) = record_severity ex"
  "record_affected (fold merge_report rs ex) = record_affected ex"
  "record_references (fold merge_report rs ex) = record_references ex"
  by (induction rs arbitrary: ex) (simp_all add: merge_report_def)

text \<open>The fixed versions that \<open>extractFixes\<close> collects: the non-empty values of the
  fixed events, each once.\<close>

lemma fixes_events_set:
  "set (fold (\<lambda>e fixes. case fixed e of
            Some fx \<Rightarrow> if fx \<noteq> [] then set_add fx fixes else fixes
          | None \<Rightarrow> fixes) es acc) =
   set acc \<union> {fx. fx \<noteq> [] \<and> (\<exists>e \<in> set es. fixed e = Some fx)}"
  by (induction es arbitrary: acc) (auto simp: set_set_add split: option.splits)

lemma fixes_events_distinct:
  "distinct acc \<Longrightarrow> distinct (fold (\<lambda>e fixes. case fixed e of
            Some fx \<Rightarrow> if fx \<noteq> [] then set_add fx fixes else fixes
          | None \<Rightarrow> fixes) es acc)"
  by (induction es arbitrary: acc) (auto simp: distinct_set_add split: option.splits)

lemma fixes_ranges_set:
  "set (fold (\<lambda>r. fold (\<lambda>e fixes. case fixed e of
            Some fx \<Rightarrow> if fx \<noteq> [] then set_add fx fixes else fixes
          | None \<Rightarrow> fixes) (or_empty (events r))) rs acc) =
   set acc \<union> {fx. fx \<noteq> [] \<and> (\<exists>r \<in> set rs. \<exists>e \<in> set (or_empty (events r)). fixed e = Some fx)}"
  by (induction rs arbitrary: acc) (auto simp: fixes_events_set)

lemma fixes_ranges_distinct:
  "distinct acc \<Longrightarrow> distinct (fold (\<lambda>r. fold (\<lambda>e fixes. case fixed e of
            Some fx \<Rightarrow> if fx \<noteq> [] then set_add fx fixes else fixes
          | None \<Rightarrow> fixes) (or_empty (events r))) rs acc)"
  by (induction rs arbitrary: acc) (auto simp: fixes_events_distinct)

lemma fixes_affected_set:
  "set (fold (\<lambda>a. fold (\<lambda>r. fold (\<lambda>e fixes. case fixed e of
            Some fx \<Rightarrow> if fx \<noteq> [] then set_add fx fixes else fixes
          | None \<Rightarrow> fixes) (or_empty (events r))) (or_empty (ranges a))) as acc) =
   set acc \<union> {fx. fx \<noteq> [] \<and> (\<exists>a \<in> set as. \<exists>r \<in> set (or_empty (ranges a)).
      \<exists>e \<in> set (or_empty (events r)). fixed e = Some fx)}"
  by (induction as arbitrary: acc) (auto simp: fixes_ranges_set)

lemma fixes_affected_distinct:
  "distinct acc \<Longrightarrow> distinct (fold (\<lambda>a. fold (\<lambda>r. fold (\<lambda>e fixes. case fixed e of
            Some fx \<Rightarrow> if fx \<noteq> [] then set_add fx fixes else fixes
          | None \<Rightarrow> fixes) (or_empty (events r))) (or_empty (ranges a))) as acc)"
  by (induction as arbitrary: acc) (auto simp: fixes_ranges_distinct)

lemma set_extractFixes:
  "set (extractFixes v) =
     {fx. fx \<noteq> [] \<and> (\<exists>a \<in> set (or_empty (affected v)). \<exists>r \<in> set (or_empty (ranges a)).
        \<exists>e \<in> set (or_empty (events r)). fixed e = Some fx)}"
  by (simp add: extractFixes_def fixes_affected_set)

lemma distinct_extractFixes: "distinct (extractFixes v)"
  by (simp add: extractFixes_def fixes_affected_distinct)


lemma extractFixes_fixed_in: "extractFixes (fixed_in vid fx) = (if fx \<noteq> [] then [fx] else [])"
  by (simp add: extractFixes_def fixed_in_def or_empty_def set_add_def)

lemma id_fixed_in: "id' (fixed_in vid fx) = vid"
  by (simp add: fixed_in_def)

lemma merge_general:
  assumes "Map_get m k = None" and "filter (\<lambda>rep. id' (snd rep) = k) reports \<noteq> []"
  shows "\<exists>r. Map_get (record_all reports m) k = Some r \<and>
      set (fixedVersions r) =
        (\<Union>rep \<in> set (filter (\<lambda>rep. id' (snd rep) = k) reports). set (extractFixes (snd rep))) \<and>
      distinct (fixedVersions r) \<and>
      affectedComponents r = new_Set (map fst (filter (\<lambda>rep. id' (snd rep) = k) reports)) \<and>
      distinct (affectedComponents r) \<and>
      set (affectedComponents r) = fst ` set (filter (\<lambda>rep. id' (snd rep) = k) reports)"
proof -
  obtain rep0 rs where f: "filter (\<lambda>rep. id' (snd rep) = k) reports = rep0 # rs"
    using assms(2) by (cases "filter (\<lambda>rep. id' (snd rep) = k) reports") auto
  define r where "r = fold merge_report rs (fresh_record (fst rep0) (snd rep0))"
  have 1: "Map_get (record_all reports m) k = Some r"
    using assms(1) f by (simp add: r_def record_all_fresh)
  have 2: "set (fixedVersions r) = (\<Union>rep \<in> set (rep0 # rs). set (extractFixes (snd rep)))"
    by (simp add: r_def fold_merge_fixes_set fresh_record_def)
  have 3: "distinct (fixedVersions r)"
    by (simp add: r_def fold_merge_fixes_distinct fresh_record_def distinct_extractFixes)
  have 4: "affectedComponents r = new_Set (map fst (rep0 # rs))"
    by (simp add: r_def fold_merge_components fresh_record_def new_Set_Cons)
  have 5: "distinct (affectedComponents r)" "set (affectedComponents r) = fst ` set (rep0 # rs)"
    unfolding 4 by (simp_all only: distinct_new_Set set_new_Set set_map)
  show ?thesis
    using 1 2 3 4 5 unfolding f by blast
qed

lemma merge_two_components:
  assumes "A \<noteq> B"
  shows "map_option fixedVersions (Map_get (record_all
        [(A, fixed_in ''V1'' ''2.0.0''), (B, fixed_in ''V1'' ''2.1.0'')] []) ''V1'') =
      Some [''2.0.0'', ''2.1.0''] \<and>
    map_option affectedComponents (Map_get (record_all
        [(A, fixed_in ''V1'' ''2.0.0''), (B, fixed_in ''V1'' ''2.1.0'')] []) ''V1'') =
      Some [A, B]"
proof -
  have "Map_get (record_all [(A, fixed_in ''V1'' ''2.0.0''), (B, fixed_in ''V1'' ''2.1.0'')] [])
      ''V1'' =
    Some (fold merge_report [(B, fixed_in ''V1'' ''2.1.0'')]
      (fresh_record A (fixed_in ''V1'' ''2.0.0'')))"
    using record_all_fresh[of "[]" "''V1''"
        "[(A, fixed_in ''V1'' ''2.0.0''), (B, fixed_in ''V1'' ''2.1.0'')]"
        "(A, fixed_in ''V1'' ''2.0.0'')" "[(B, fixed_in ''V1'' ''2.1.0'')]"]
    by (simp add: Map_get_def id_fixed_in)
  then show ?thesis
    using assms
    by (simp add: merge_report_def fresh_record_def extractFixes_fixed_in new_Set_def set_add_def)
qed

lemma merge_same_component_twice:
  assumes "Map_get m (id' v) = None"
  shows "map_option affectedComponents (Map_get (record_all [(c, v), (c, v)] m) (id' v)) = Some [c]"
proof -
  have "Map_get (record_all [(c, v), (c, v)] m) (id' v) =
      Some (fold merge_report [(c, v)] (fresh_record c v))"
    using assms record_all_fresh[of m "id' v" "[(c, v), (c, v)]" "(c, v)" "[(c, v)]"] by simp
  then show ?thesis
    by (simp add: merge_report_def fresh_record_def set_add_def)
qed

text \<open>The loop of the worker over the relevant vulnerabilities applies these record
  operations, all for the component of the work item.\<close>

lemma fold_relevant_step:
  "snd (fold (relevant_step c) vs (n, m)) = record_all (map (Pair c) vs) m"
  by (induction vs arbitrary: n m) (simp_all add: relevant_step_def record_all_def)

lemma process_vulns_allVulns:
  "allVulns (process_vulns pkg vulns st) =
     record_all (map (Pair (component pkg))
       (filter (\<lambda>v. isVulnerableAtOrBelow v (forkPoint pkg)) vulns)) (allVulns st)"
proof (cases "vulns = []")
  case True
  then show ?thesis by (simp add: process_vulns_def record_all_def)
next
  case False
  obtain n m where f: "fold (relevant_step (component pkg))
      (filter (\<lambda>v. isVulnerableAtOrBelow v (forkPoint pkg)) vulns) (0, allVulns st) = (n, m)"
    by (cases "fold (relevant_step (component pkg))
      (filter (\<lambda>v. isVulnerableAtOrBelow v (forkPoint pkg)) vulns) (0, allVulns st)")
  then have "m = record_all (map (Pair (component pkg))
       (filter (\<lambda>v. isVulnerableAtOrBelow v (forkPoint pkg)) vulns)) (allVulns st)"
    using fold_relevant_step[of "component pkg"
        "filter (\<lambda>v. isVulnerableAtOrBelow v (forkPoint pkg)) vulns" 0 "allVulns st"]
    by simp
  then show ?thesis
    using False f by (simp add: process_vulns_def Let_def)
qed

text \<open>
  Claim C6. For every sequence of record operations and every vulnerability identifier
  that is not yet in the map and is reported at least once, the stored record's
  \<open>fixedVersions\<close> holds, without duplicates, exactly the union of the fixed-version sets
  reported for that identifier, and \<open>affectedComponents\<close> lists each reporting component
  exactly once in first-report order. Recording \<open>V1\<close> with \<open>{"2.0.0"}\<close> for component
  \<open>A\<close> and then with \<open>{"2.1.0"}\<close> for another component \<open>B\<close> yields
  \<open>fixedVersions = ["2.0.0", "2.1.0"]\<close> and \<open>affectedComponents = [A, B]\<close>; recording the
  same identifier for the same component twice leaves the component there once.
\<close>

theorem aggregator_merge:
  "(Map_get m k = None \<and> filter (\<lambda>rep. id' (snd rep) = k) reports \<noteq> [] \<longrightarrow>
      (\<exists>r. Map_get (record_all reports m) k = Some r \<and>
        set (fixedVersions r) =
          (\<Union>rep \<in> set (filter (\<lambda>rep. id' (snd rep) = k) reports). set (extractFixes (snd rep))) \<and>
        distinct (fixedVersions r) \<and>
        affectedComponents r = new_Set (map fst (filter (\<lambda>rep. id' (snd rep) = k) reports)) \<and>
        distinct (affectedComponents r) \<and>
        set (affectedComponents r) = fst ` set (filter (\<lambda>rep. id' (snd rep) = k) reports))) \<and>
   (A \<noteq> B \<longrightarrow>
      map_option fixedVersions (Map_get (record_all
          [(A, fixed_in ''V1'' ''2.0.0''), (B, fixed_in ''V1'' ''2.1.0'')] []) ''V1'') =
        Some [''2.0.0'', ''2.1.0''] \<and>
      map_option affectedComponents (Map_get (record_all
          [(A, fixed_in ''V1'' ''2.0.0''), (B, fixed_in ''V1'' ''2.1.0'')] []) ''V1'') =
        Some [A, B]) \<and>
   (Map_get m (id' v) = None \<longrightarrow>
      map_option affectedComponents (Map_get (record_all [(c, v), (c, v)] m) (id' v)) = Some [c])"
  using merge_general[of m k reports] merge_two_components[of A B]
    merge_same_component_twice[of m v c]
  by blast

theorem aggregator_merge_witness:
  "(\<exists>r. Map_get (record_all example_reports []) ''V1'' = Some r \<and>
      set (fixedVersions r) = {''2.0.0'', ''2.1.0''} \<and>
      distinct (fixedVersions r) \<and>
      affectedComponents r = [''pkg:npm/a'', ''pkg:npm/b'']) \<and>
   map_option affectedComponents (Map_get (record_all
      [(''pkg:npm/a'', fixed_in ''V1'' ''2.0.0''), (''pkg:npm/b'', fixed_in ''V1'' ''2.1.0'')] [])
      ''V1'') = Some [''pkg:npm/a'', ''pkg:npm/b''] \<and>
   map_option affectedComponents (Map_get (record_all
      [(''pkg:npm/a'', fixed_in ''V1'' ''2.0.0''), (''pkg:npm/a'', fixed_in ''V1'' ''2.0.0'')] [])
      (id' (fixed_in ''V1'' ''2.0.0''))) = Some [''pkg:npm/a'']"
proof -
  have f: "filter (\<lambda>rep. id' (snd rep) = ''V1'') example_reports =
      [(''pkg:npm/a'', fixed_in ''V1'' ''2.0.0''), (''pkg:npm/b'', fixed_in ''V1'' ''2.1.0''),
       (''pkg:npm/a'', fixed_in ''V1'' ''2.0.0'')]"
    by (simp add: example_reports_def id_fixed_in)
  have e: "Map_get ([] :: (string, vuln_record) js_map) ''V1'' = None"
    "Map_get ([] :: (string, vuln_record) js_map) (id' (fixed_in ''V1'' ''2.0.0'')) = None"
    by (simp_all add: Map_get_def)
  have n: "''pkg:npm/a'' \<noteq> ''pkg:npm/b''"
    by simp
  have s: "new_Set [''pkg:npm/a'', ''pkg:npm/b'', ''pkg:npm/a''] = [''pkg:npm/a'', ''pkg:npm/b'']"
    by (simp add: new_Set_def set_add_def)
  show ?thesis
    using e n
      aggregator_merge[of "[]" "''V1''" example_reports "''pkg:npm/a''" "''pkg:npm/b''"
        "fixed_in ''V1'' ''2.0.0''" "''pkg:npm/a''"]
    by (auto simp: f s extractFixes_fixed_in)
qed

section \<open>The per-component summary and the queries of a run\<close>

lemma process_vulns_counts:
  "Map_has (perPackageCounts st) k \<Longrightarrow> Map_has (perPackageCounts (process_vulns pkg vulns st)) k"
  "vulns \<noteq> [] \<Longrightarrow> Map_has (perPackageCounts (process_vulns pkg vulns st)) (component pkg)"
  by (simp_all add: process_vulns_def Let_def Map_has_set split: prod.splits)

lemma enter_counts: "perPackageCounts (worker_enter i st) = perPackageCounts st"
  by (simp add: worker_enter_def split: list.splits)

lemma enter_trace_set:
  "set (trace (worker_enter i st)) \<subseteq> set (trace st) \<union> {s. \<exists>pkg. s = Dequeued i pkg}"
  by (auto simp: worker_enter_def split: list.splits)

lemma steps_inv_iff:
  "steps_inv st =
     (\<forall>i pkg vulns effects. Resumed i pkg vulns effects \<in> set (trace st) \<longrightarrow>
        (\<exists>net. osvRequest net pkg 1 = (vulns, effects)) \<and>
        (vulns \<noteq> [] \<longrightarrow> Map_has (perPackageCounts st) (component pkg)))"
proof
  assume a: "steps_inv st"
  show "\<forall>i pkg vulns effects. Resumed i pkg vulns effects \<in> set (trace st) \<longrightarrow>
        (\<exists>net. osvRequest net pkg 1 = (vulns, effects)) \<and>
        (vulns \<noteq> [] \<longrightarrow> Map_has (perPackageCounts st) (component pkg))"
  proof (intro allI impI)
    fix i pkg vulns effects
    assume "Resumed i pkg vulns effects \<in> set (trace st)"
    then have "case Resumed i pkg vulns effects of
          Dequeued i pkg \<Rightarrow> True
        | Resumed i pkg vulns effects \<Rightarrow>
            (\<exists>net. osvRequest net pkg 1 = (vulns, effects)) \<and>
            (vulns \<noteq> [] \<longrightarrow> Map_has (perPackageCounts st) (component pkg))"
      using a unfolding steps_inv_def by blast
    then show "(\<exists>net. osvRequest net pkg 1 = (vulns, effects)) \<and>
        (vulns \<noteq> [] \<longrightarrow> Map_has (perPackageCounts st) (component pkg))"
      by simp
  qed
next
  assume a: "\<forall>i pkg vulns effects. Resumed i pkg vulns effects \<in> set (trace st) \<longrightarrow>
        (\<exists>net. osvRequest net pkg 1 = (vulns, effects)) \<and>
        (vulns \<noteq> [] \<longrightarrow> Map_has (perPackageCounts st) (component pkg))"
  show "steps_inv st"
    unfolding steps_inv_def
  proof
    fix s assume m: "s \<in> set (trace st)"
    show "case s of
          Dequeued i pkg \<Rightarrow> True
        | Resumed i pkg vulns effects \<Rightarrow>
            (\<exists>net. osvRequest net pkg 1 = (vulns, effects)) \<and>
            (vulns \<noteq> [] \<longrightarrow> Map_has (perPackageCounts st) (component pkg))"
    proof (cases s)
      case (Dequeued i pkg)
      then show ?thesis by simp
    next
      case (Resumed i pkg vulns effects)
      then have "(\<exists>net. osvRequest net pkg 1 = (vulns, effects)) \<and>
          (vulns \<noteq> [] \<longrightarrow> Map_has (perPackageCounts st) (component pkg))"
        using a m by blast
      then show ?thesis using Resumed by simp
    qed
  qed
qed

lemma enter_steps:
  assumes "steps_inv st"
  shows "steps_inv (worker_enter i st)"
  unfolding steps_inv_iff
proof (intro allI impI)
  fix j pkg vulns effects
  assume "Resumed j pkg vulns effects \<in> set (trace (worker_enter i st))"
  then have "Resumed j pkg vulns effects \<in> set (trace st)"
    using enter_trace_set[of i st] by auto
  then show "(\<exists>net. osvRequest net pkg 1 = (vulns, effects)) \<and>
      (vulns \<noteq> [] \<longrightarrow> Map_has (perPackageCounts (worker_enter i st)) (component pkg))"
    using assms unfolding steps_inv_iff enter_counts by blast
qed

lemma resume_steps:
  assumes "steps_inv st"
  shows "steps_inv (worker_resume i net st)"
proof (cases "index (lanes st) i")
  case None
  then show ?thesis using assms by (simp add: worker_resume_def)
next
  case (Some l)
  show ?thesis
  proof (cases l)
    case NotStarted
    then show ?thesis using assms Some by (simp add: worker_resume_def)
  next
    case Finished
    then show ?thesis using assms Some by (simp add: worker_resume_def)
  next
    case (Awaiting pkg)
    obtain vulns effects where r: "osvRequest net pkg 1 = (vulns, effects)"
      by (cases "osvRequest net pkg 1")
    define st1 where
      "st1 = process_vulns pkg vulns (st\<lparr>trace := trace st @ [Resumed i pkg vulns effects]\<rparr>)"
    have res: "worker_resume i net st = worker_enter i st1"
      using Some Awaiting r by (simp add: worker_resume_def st1_def)
    have tr: "trace st1 = trace st @ [Resumed i pkg vulns effects]"
      by (simp add: st1_def process_vulns_frame)
    have old_counts: "Map_has (perPackageCounts st) k \<Longrightarrow> Map_has (perPackageCounts st1) k" for k
      using process_vulns_counts(1)[of "st\<lparr>trace := trace st @ [Resumed i pkg vulns effects]\<rparr>" k pkg vulns]
      by (simp add: st1_def)
    have new_count: "vulns \<noteq> [] \<Longrightarrow> Map_has (perPackageCounts st1) (component pkg)"
      by (simp add: st1_def process_vulns_counts(2))
    have "steps_inv st1"
      unfolding steps_inv_iff
    proof (intro allI impI)
      fix j p vs es
      assume "Resumed j p vs es \<in> set (trace st1)"
      then consider (old) "Resumed j p vs es \<in> set (trace st)"
        | (new) "j = i" "p = pkg" "vs = vulns" "es = effects"
        unfolding tr by auto
      then show "(\<exists>net. osvRequest net p 1 = (vs, es)) \<and>
          (vs \<noteq> [] \<longrightarrow> Map_has (perPackageCounts st1) (component p))"
      proof cases
        case old
        then show ?thesis
          using assms old_counts unfolding steps_inv_iff by blast
      next
        case new
        then show ?thesis
          using r new_count by blast
      qed
    qed
    then show ?thesis
      unfolding res by (rule enter_steps)
  qed
qed

lemma run_steps: "steps_inv st \<Longrightarrow> steps_inv (run schedule st)"
  unfolding run_def
  by (induction schedule arbitrary: st) (auto simp: resume_steps)

lemma fold_enter_steps: "steps_inv st \<Longrightarrow> steps_inv (fold worker_enter is st)"
  by (induction "is" arbitrary: st) (auto simp: enter_steps)

lemma main_steps: "steps_inv (main n packages schedule)"
  unfolding main_def main_start_def
  by (intro run_steps fold_enter_steps) (simp add: steps_inv_def)

lemma resumed_step: "pkg \<in> set (resumed tr) \<Longrightarrow> \<exists>i vulns effects. Resumed i pkg vulns effects \<in> set tr"
  by (induction tr rule: resumed.induct) auto

text \<open>
  Claim C8, as the code has it. In every run of stage 2, each handled result is what
  \<open>osvRequest\<close> returned for its work item, and every component one of whose work items
  got a non-empty list of vulnerabilities back has an entry in \<open>perPackageCounts\<close>,
  whatever happened to the other items. After a completed run with at least one lane every
  work item has been handled. (An item whose query returned no vulnerability is skipped by
  \<open>continue\<close> before the count is set.)
\<close>

theorem summary_for_items_with_vulns:
  "(\<forall>i pkg vulns effects. Resumed i pkg vulns effects \<in> set (trace (main n packages schedule)) \<longrightarrow>
      (\<exists>net. osvRequest net pkg 1 = (vulns, effects)) \<and>
      (vulns \<noteq> [] \<longrightarrow> Map_has (perPackageCounts (main n packages schedule)) (component pkg))) \<and>
   (1 \<le> n \<and> completed (main n packages schedule) \<longrightarrow>
      (\<forall>pkg \<in> set packages. \<exists>i vulns effects.
          Resumed i pkg vulns effects \<in> set (trace (main n packages schedule))))"
proof -
  have 1: "\<forall>i pkg vulns effects. Resumed i pkg vulns effects \<in> set (trace (main n packages schedule)) \<longrightarrow>
      (\<exists>net. osvRequest net pkg 1 = (vulns, effects)) \<and>
      (vulns \<noteq> [] \<longrightarrow> Map_has (perPackageCounts (main n packages schedule)) (component pkg))"
    using main_steps[of n packages schedule] by (fastforce simp: steps_inv_def)
  have 2: "\<forall>pkg \<in> set packages. \<exists>i vulns effects.
          Resumed i pkg vulns effects \<in> set (trace (main n packages schedule))"
    if "1 \<le> n" "completed (main n packages schedule)"
  proof
    fix pkg assume "pkg \<in> set packages"
    moreover have "mset (resumed (trace (main n packages schedule))) = mset packages"
      using that handled_at_completion by blast
    ultimately have "pkg \<in> set (resumed (trace (main n packages schedule)))"
      using mset_eq_setD by blast
    then show "\<exists>i vulns effects. Resumed i pkg vulns effects \<in> set (trace (main n packages schedule))"
      by (rule resumed_step)
  qed
  show ?thesis using 1 2 by blast
qed

theorem summary_for_items_with_vulns_witness:
  "Map_has (perPackageCounts (main 2 example_packages example_schedule)) ''pkg:npm/a'' \<and>
   (\<exists>net. osvRequest net \<lparr>component = ''pkg:npm/a'', forkPoint = ''1.0.0''\<rparr> 1 =
      ([example_vuln], [Sent (osv_request \<lparr>component = ''pkg:npm/a'', forkPoint = ''1.0.0''\<rparr>)])) \<and>
   (\<exists>i vulns effects. Resumed i \<lparr>component = ''pkg:npm/c'', forkPoint = ''0.1.0''\<rparr> vulns effects
      \<in> set (trace (main 2 example_packages example_schedule)))"
proof -
  have m: "Resumed 0 \<lparr>component = ''pkg:npm/a'', forkPoint = ''1.0.0''\<rparr> [example_vuln]
      [Sent (osv_request \<lparr>component = ''pkg:npm/a'', forkPoint = ''1.0.0''\<rparr>)]
    \<in> set (trace (main 2 example_packages example_schedule))"
    by (rule example_run_step)
  have c: "completed (main 2 example_packages example_schedule)"
    by (rule example_run_completed)
  have p: "\<lparr>component = ''pkg:npm/c'', forkPoint = ''0.1.0''\<rparr> \<in> set example_packages"
    by (simp add: example_packages_def)
  have n: "1 \<le> (2::nat)"
    by simp
  note t = summary_for_items_with_vulns[of 2 example_packages example_schedule]
  have a: "(\<exists>net. osvRequest net \<lparr>component = ''pkg:npm/a'', forkPoint = ''1.0.0''\<rparr> 1 =
        ([example_vuln], [Sent (osv_request \<lparr>component = ''pkg:npm/a'', forkPoint = ''1.0.0''\<rparr>)])) \<and>
      ([example_vuln] \<noteq> [] \<longrightarrow>
        Map_has (perPackageCounts (main 2 example_packages example_schedule))
          (component \<lparr>component = ''pkg:npm/a'', forkPoint = ''1.0.0''\<rparr>))"
    using t m by blast
  have b: "\<exists>i vulns effects. Resumed i \<lparr>component = ''pkg:npm/c'', forkPoint = ''0.1.0''\<rparr> vulns effects
      \<in> set (trace (main 2 example_packages example_schedule))"
    using t n c p by blast
  show ?thesis
    using a b by simp
qed

text \<open>
  The claim as the specification states it fails: a work item whose query succeeds with an
  empty list of vulnerabilities is handled, yet its component gets no entry in
  \<open>perPackageCounts\<close>.
\<close>

theorem summary_skips_item_without_vulns_counterexample:
  "completed (main CONCURRENCY [example_pkg] [(0, answers [])]) \<and>
   httpsPost (answers [] 1) OSV_PATH (osv_query example_pkg) = Inr (Object (Some [])) \<and>
   resumed (trace (main CONCURRENCY [example_pkg] [(0, answers [])])) = [example_pkg] \<and>
   \<not> Map_has (perPackageCounts (main CONCURRENCY [example_pkg] [(0, answers [])]))
       (component example_pkg)"
  by code_simp











section \<open>Properties of the catalog scrape\<close>

lemma fold_result_append:
  "fold_result f (xs @ ys) s =
     (case fold_result f xs s of Inl e \<Rightarrow> Inl e | Inr s1 \<Rightarrow> fold_result f ys s1)"
  by (induction xs arbitrary: s) (simp_all split: sum.splits)

lemma fold_result_concat: "fold_result (fold_result f) xss s = fold_result f (concat xss) s"
  by (induction xss arbitrary: s) (simp_all add: fold_result_append split: sum.splits)

lemma fold_result_pure:
  "(\<And>x s. x \<in> set xs \<Longrightarrow> P s \<Longrightarrow> f x s = Inr (g x s) \<and> P (g x s)) \<Longrightarrow> P s \<Longrightarrow>
   fold_result f xs s = Inr (fold g xs s) \<and> P (fold g xs s)"
  by (induction xs arbitrary: s) simp_all

lemma visit_unconditional:
  assumes "componenty item = None" and "Map_get m None = None"
  shows "visit_forkPoint cmp item c fp m =
      Inr (Map_set (Some c) \<lparr>component = c, forkPoint = fp\<rparr> m) \<and>
    Map_get (Map_set (Some c) \<lparr>component = c, forkPoint = fp\<rparr> m) None = None"
  using assms by (simp add: visit_forkPoint_def Map_has_def Map_get_def map_of_Map_set)

lemma store_item_no_undefined:
  "Map_get m None = None \<Longrightarrow> Map_get (store_item item m) None = None"
proof -
  have "Map_get m None = None \<Longrightarrow>
      Map_get (fold (\<lambda>fp. Map_set (Some c) \<lparr>component = c, forkPoint = fp\<rparr>) fps m) None = None"
    for c fps
    by (induction fps arbitrary: m) (simp_all add: Map_get_set)
  then show "Map_get m None = None \<Longrightarrow> Map_get (store_item item m) None = None"
    by (simp add: store_item_def split: option.splits)
qed

lemma process_item_unconditional:
  assumes "componenty item = None" and "Map_get m None = None"
  shows "process_item cmp item m = Inr (store_item item m) \<and>
    Map_get (store_item item m) None = None"
proof (cases "item_component item")
  case None
  then show ?thesis using assms(2) by (simp add: process_item_def store_item_def)
next
  case (Some c)
  show ?thesis
  proof (cases "c = []")
    case True
    then show ?thesis using Some assms(2) by (simp add: process_item_def store_item_def)
  next
    case False
    have "fold_result (visit_forkPoint cmp item c) (forkPoints_of item) m =
        Inr (fold (\<lambda>fp. Map_set (Some c) \<lparr>component = c, forkPoint = fp\<rparr>) (forkPoints_of item) m) \<and>
      Map_get (fold (\<lambda>fp. Map_set (Some c) \<lparr>component = c, forkPoint = fp\<rparr>)
        (forkPoints_of item) m) None = None"
      using assms(2)
      by (intro fold_result_pure[where P = "\<lambda>m. Map_get m None = None"])
        (simp_all add: visit_unconditional[OF assms(1)])
    then show ?thesis
      using Some False by (simp add: process_item_def store_item_def forkPoints_of_def Let_def)
  qed
qed

lemma processResults_unconditional:
  assumes "\<forall>item \<in> set items. componenty item = None" and "Map_get m None = None"
  shows "processResults cmp items m = Inr (fold store_item items m) \<and>
    Map_get (fold store_item items m) None = None"
  unfolding processResults_def
  using assms
  by (intro fold_result_pure[where P = "\<lambda>m. Map_get m None = None"])
    (simp_all add: process_item_unconditional)

lemma fold_Map_set_lookup:
  "Map_get (fold (\<lambda>fp. Map_set (Some c) \<lparr>component = c, forkPoint = fp\<rparr>) fps m) k =
     (if k = Some c \<and> fps \<noteq> [] then Some \<lparr>component = c, forkPoint = last fps\<rparr>
      else Map_get m k)"
  by (induction fps arbitrary: m) (auto simp: Map_get_set)

lemma store_item_lookup:
  "Map_get (store_item item m) (Some c) =
     (if c \<noteq> [] \<and> item_component item = Some c \<and> forkPoints_of item \<noteq> []
      then Some \<lparr>component = c, forkPoint = last (forkPoints_of item)\<rparr>
      else Map_get m (Some c))"
  by (auto simp: store_item_def fold_Map_set_lookup split: option.splits)

lemma observed_Cons:
  "observed c (item # items) =
     (if item_component item = Some c then forkPoints_of item else []) @ observed c items"
  by (simp add: observed_def)

lemma fold_store_lookup:
  "Map_get (fold store_item items m) (Some c) =
     (if c = [] \<or> observed c items = [] then Map_get m (Some c)
      else Some \<lparr>component = c, forkPoint = last (observed c items)\<rparr>)"
proof (induction items arbitrary: m)
  case Nil
  then show ?case by (simp add: observed_def)
next
  case (Cons item items)
  show ?case
    by (simp add: Cons.IH store_item_lookup observed_Cons)
qed

text \<open>
  Claim C9. When no catalog entry has a property \<open>componenty\<close>, the membership check
  \<open>allComponentsMap.has(item.componenty)\<close> is false on every iteration, so every fork
  point is stored unconditionally: the run never throws, its result does not depend on the
  comparison function (the branch that calls \<open>compareSemver\<close> is never executed, so that
  even a comparison that always throws changes nothing), and at the end the entry of every
  component is the last fork point observed for it in processing order.
\<close>

theorem last_forkPoint_wins:
  "(\<forall>page \<in> set pages. \<forall>item \<in> set page. componenty item = None) \<longrightarrow>
     fold_result (processResults cmp) pages [] = Inr (fold store_item (concat pages) []) \<and>
     fetchAllPages cmp pages = Inr (Map_values (fold store_item (concat pages) [])) \<and>
     fetchAllPages cmp pages = fetchAllPages (\<lambda>a b. Inl ReferenceError) pages \<and>
     (\<forall>c. Map_get (fold store_item (concat pages) []) (Some c) =
        (if c = [] \<or> observed c (concat pages) = [] then None
         else Some \<lparr>component = c, forkPoint = last (observed c (concat pages))\<rparr>))"
proof
  assume a: "\<forall>page \<in> set pages. \<forall>item \<in> set page. componenty item = None"
  then have items: "\<forall>item \<in> set (concat pages). componenty item = None"
    by auto
  have run: "fold_result (processResults c) pages [] = Inr (fold store_item (concat pages) [])" for c
  proof -
    have "fold_result (processResults c) pages [] = processResults c (concat pages) []"
      using fold_result_concat[of "process_item c" pages "[]"]
      by (simp add: processResults_def[abs_def])
    then show ?thesis
      using processResults_unconditional[OF items, of "[]" c] by (simp add: Map_get_def)
  qed
  have empty_lookup: "Map_get ([] :: (string option, work_item) js_map) k = None" for k
    by (simp add: Map_get_def)
  have 1: "fold_result (processResults cmp) pages [] = Inr (fold store_item (concat pages) [])"
    by (rule run)
  have 2: "fetchAllPages c pages = Inr (Map_values (fold store_item (concat pages) []))" for c
    by (simp add: fetchAllPages_def run)
  have 3: "\<forall>c. Map_get (fold store_item (concat pages) []) (Some c) =
        (if c = [] \<or> observed c (concat pages) = [] then None
         else Some \<lparr>component = c, forkPoint = last (observed c (concat pages))\<rparr>)"
    by (simp add: fold_store_lookup empty_lookup)
  show "fold_result (processResults cmp) pages [] = Inr (fold store_item (concat pages) []) \<and>
     fetchAllPages cmp pages = Inr (Map_values (fold store_item (concat pages) [])) \<and>
     fetchAllPages cmp pages = fetchAllPages (\<lambda>a b. Inl ReferenceError) pages \<and>
     (\<forall>c. Map_get (fold store_item (concat pages) []) (Some c) =
        (if c = [] \<or> observed c (concat pages) = [] then None
         else Some \<lparr>component = c, forkPoint = last (observed c (concat pages))\<rparr>))"
    using 1 2 3 by simp
qed

theorem last_forkPoint_wins_witness:
  "fetchAllPages (\<lambda>a b. Inr (compareSemver a b)) example_pages =
     Inr [\<lparr>component = ''pkg:npm/a'', forkPoint = ''1.5.0''\<rparr>,
          \<lparr>component = ''pkg:npm/b'', forkPoint = ''0.5.0''\<rparr>] \<and>
   fetchAllPages (\<lambda>a b. Inl ReferenceError) example_pages =
     Inr [\<lparr>component = ''pkg:npm/a'', forkPoint = ''1.5.0''\<rparr>,
          \<lparr>component = ''pkg:npm/b'', forkPoint = ''0.5.0''\<rparr>] \<and>
   observed ''pkg:npm/a'' (concat example_pages) = [''2.0.0'', ''1.0.0'', ''1.5.0'']"
proof -
  have h: "\<forall>page \<in> set example_pages. \<forall>item \<in> set page. componenty item = None"
    by (simp add: example_pages_def entry_def)
  have v: "Map_values (fold store_item (concat example_pages) []) =
      [\<lparr>component = ''pkg:npm/a'', forkPoint = ''1.5.0''\<rparr>,
       \<lparr>component = ''pkg:npm/b'', forkPoint = ''0.5.0''\<rparr>]"
    by code_simp
  have ob: "observed ''pkg:npm/a'' (concat example_pages) = [''2.0.0'', ''1.0.0'', ''1.5.0'']"
    by code_simp
  show ?thesis
    using h v ob
      last_forkPoint_wins[of example_pages "\<lambda>a b. Inr (compareSemver a b)"]
      last_forkPoint_wins[of example_pages "\<lambda>a b. Inl ReferenceError"]
    by simp
qed

text \<open>
  Claim C1 (the retained fork point is the maximum under \<open>compareSemver\<close>, first seen on
  ties) does not hold of the code: for one entry with the fork points \<open>"2.0.0"\<close> and then
  \<open>"1.0.0"\<close> the scrape retains \<open>"1.0.0"\<close>, the last one, although \<open>"2.0.0"\<close> compares
  greater.
\<close>

theorem highest_forkPoint_not_retained:
  "fetchAllPages (\<lambda>a b. Inr (compareSemver a b)) [[entry ''pkg:npm/a'' [''2.0.0'', ''1.0.0'']]] =
     Inr [\<lparr>component = ''pkg:npm/a'', forkPoint = ''1.0.0''\<rparr>] \<and>
   compareSemver ''2.0.0'' ''1.0.0'' = 1"
  by code_simp

end
